theory Spec2Isabelle
  imports Complex_Main
begin

section \<open>Least-squares Monte Carlo with repetitions: the notebook's code cell\<close>

text \<open>
  The program is the single code cell of \<^verbatim>\<open>4.2.1-Extended_example_repeats.ipynb\<close>.
  Numbers are modelled as exact reals (numpy computes in double precision), Python
  integers as \<open>int\<close>. A numpy vector over the paths is a list of length \<open>N\<close>; the
  table \<open>S\<close> of shape \<open>(N, nt + 1)\<close> is kept as the list of its columns
  \<open>S[:, 0], ..., S[:, nt]\<close>, since the code only ever reads and writes whole columns,
  so \<open>S ! i ! j\<close> is the source's \<open>S[j, i]\<close>; \<open>betas\<close> of shape \<open>(3, nt)\<close> is the
  list of its \<open>nt\<close> columns as well.

  Two things are not code of the notebook and are parameters of the model:
  \<^item> the global random generator behind \<open>np.random.normal\<close>: a stream of draws and the
    position reached in it (\<open>rng\<close>); the state survives a raised exception;
  \<^item> \<open>numpy.linalg.lstsq\<close>: where it returns, a function from the design matrix (a list
    of rows) and the target vector to the coefficient vector (\<open>lstsq\<close>); \<open>step\<close>,
    \<open>backward\<close>, \<open>solve\<close>, \<open>repetition\<close> and \<open>run\<close> are the cell as long as every
    call returns. The call of line 119 is unguarded and numpy raises LinAlgError when
    its SVD does not converge, as it does on a non-finite entry, which double
    arithmetic can produce by overflow of \<open>S**2\<close>: \<open>step_raising\<close> to \<open>run_raising\<close>
    are the same cell with a \<open>lstsq\<close> that may raise on any system. The two agree on
    every run that completes.
\<close>

subsection \<open>Parameters, errors, random draws\<close>

text \<open>The exceptions the cell can end with: ValueError and IndexError from an array
  with a negative or a missing dimension, LinAlgError from \<open>lstsq\<close>.\<close>

datatype error = ValueError | IndexError | LinAlgError

text \<open>The parameters assigned at the top of the cell (lines 35-48). \<open>T\<close> is computed
  and never read.\<close>

record params =
  r :: real
  K :: real
  dt :: real
  nt :: int
  N :: int
  R :: int
  S0 :: real
  sigma :: real

definition T :: "params \<Rightarrow> real" where
  "T p = real_of_int (nt p) * dt p"

record rng =
  draws :: "nat \<Rightarrow> real"
  pos :: nat

type_synonym lstsq = "real list list \<Rightarrow> real list \<Rightarrow> real list"

text \<open>\<open>np.random.normal(0, 1, n)\<close>: the next \<open>n\<close> draws of the stream.\<close>

definition normal :: "rng \<Rightarrow> nat \<Rightarrow> real list \<times> rng" where
  "normal g n = (map (draws g) [pos g ..< pos g + n], g\<lparr>pos := pos g + n\<rparr>)"

subsection \<open>numpy's array operations\<close>

text \<open>\<open>a[idx]\<close> and \<open>a[idx] = vals\<close> for an index array \<open>idx\<close>; \<open>np.where(c, a, b)\<close>;
  a row of \<open>X @ beta\<close>; \<open>np.mean\<close> and \<open>np.std\<close> (with its default \<open>ddof = 0\<close>).
  On an empty array numpy's mean and std are \<open>nan\<close> (with a warning, no exception),
  while the division by zero below is \<open>0\<close>: statements about a mean are made for
  non-empty arrays.\<close>

definition take_idx :: "'a list \<Rightarrow> nat list \<Rightarrow> 'a list" where
  "take_idx a idx = map (\<lambda>i. a ! i) idx"

definition put_idx :: "'a list \<Rightarrow> nat list \<Rightarrow> 'a list \<Rightarrow> 'a list" where
  "put_idx a idx vals = fold (\<lambda>(i, v) b. b[i := v]) (zip idx vals) a"

definition np_where :: "bool list \<Rightarrow> 'a list \<Rightarrow> 'a list \<Rightarrow> 'a list" where
  "np_where c a b = map (\<lambda>(ci, ai, bi). if ci then ai else bi) (zip c (zip a b))"

definition dot :: "real list \<Rightarrow> real list \<Rightarrow> real" where
  "dot u v = sum_list (map2 (*) u v)"

definition np_mean :: "real list \<Rightarrow> real" where
  "np_mean xs = sum_list xs / real (length xs)"

definition np_std :: "real list \<Rightarrow> real" where
  "np_std xs = sqrt (np_mean (map (\<lambda>x. \<bar>x - np_mean xs\<bar> ^ 2) xs))"

subsection \<open>Path simulation (lines 65-70)\<close>

text \<open>The factor \<open>np.exp((r - 0.5 * sigma**2) * dt + sigma * np.sqrt(dt) * Z)\<close> of one
  draw. For \<open>dt < 0\<close> numpy's square root is \<open>nan\<close>, HOL's is not: statements about
  simulated values are made for \<open>0 \<le> dt\<close>.\<close>

definition growth :: "params \<Rightarrow> real \<Rightarrow> real" where
  "growth p z = exp ((r p - 0.5 * (sigma p)\<^sup>2) * dt p + sigma p * sqrt (dt p) * z)"

text \<open>The body of \<open>for i in range(1, nt + 1)\<close>.\<close>

definition path_step :: "params \<Rightarrow> nat \<Rightarrow> real list list \<times> rng \<Rightarrow> real list list \<times> rng" where
  "path_step p i = (\<lambda>(S, g).
     let (Z, g') = normal g (nat (N p))
     in (S[i := map2 (\<lambda>s z. s * growth p z) (S ! (i - 1)) Z], g'))"

text \<open>\<open>np.zeros((N, nt + 1))\<close> raises ValueError on a negative dimension, and
  \<open>S[:, 0] = S0\<close> raises IndexError when the table has no column; both before the
  first draw.\<close>

definition simulate :: "params \<Rightarrow> rng \<Rightarrow> (error + real list list) \<times> rng" where
  "simulate p g =
     (if N p < 0 \<or> nt p + 1 < 0 then (Inl ValueError, g)
      else if nt p + 1 = 0 then (Inl IndexError, g)
      else
        let S = replicate (nat (nt p + 1)) (replicate (nat (N p)) 0);
            S = S[0 := replicate (nat (N p)) (S0 p)];
            (S, g') = fold (path_step p) [1 ..< nat (nt p + 1)] (S, g)
        in (Inr S, g'))"

subsection \<open>Backward induction (lines 78-141)\<close>

record state =
  intrinsic :: "real list"
  payoff :: "real list"
  exec_t :: "nat list"
  betas :: "real list list"

text \<open>Lines 78-97: the state before the loop. \<open>S[:, -1]\<close> is the last column.\<close>

definition init_state :: "params \<Rightarrow> real list list \<Rightarrow> state" where
  "init_state p S =
     (let intr = map (\<lambda>s. max (K p - s) 0) (last S)
      in \<lparr>intrinsic = intr, payoff = intr,
          exec_t = replicate (nat (N p)) (nat (nt p)),
          betas = replicate (nat (nt p)) [0, 0, 0]\<rparr>)"

text \<open>Line 102 and line 137: \<open>dcf = np.exp(-r * dt) * payoff\<close>.\<close>

definition discount :: "params \<Rightarrow> real list \<Rightarrow> real list" where
  "discount p po = map (\<lambda>x. exp (- r p * dt p) * x) po"

text \<open>Line 105: \<open>np.where(S[:, t_now] < K)[0]\<close>, the indices of the in-the-money paths in
  increasing order. Line 110: the design matrix, one row per in-the-money path.\<close>

definition itm_paths :: "params \<Rightarrow> real list \<Rightarrow> nat list" where
  "itm_paths p col = filter (\<lambda>i. col ! i < K p) [0 ..< length col]"

definition design :: "real list \<Rightarrow> nat list \<Rightarrow> real list list" where
  "design col idx = map (\<lambda>s. [1, s, s\<^sup>2]) (take_idx col idx)"

text \<open>The body of \<open>for t_now in range(nt-1, 0, -1)\<close>, lines 102-133.\<close>

definition step :: "lstsq \<Rightarrow> params \<Rightarrow> real list list \<Rightarrow> nat \<Rightarrow> state \<Rightarrow> state" where
  "step lsq p S t_now st =
     (let dcf = discount p (payoff st);
          itm = itm_paths p (S ! t_now);
          X = design (S ! t_now) itm;
          y = take_idx dcf itm;
          beta = lsq X y;
          bs = (betas st)[t_now := beta];
          y_hat = map (\<lambda>row. dot row beta) X;
          intr = put_idx (intrinsic st) itm
                   (map (\<lambda>s. max (K p - s) 0) (take_idx (S ! t_now) itm));
          ex = put_idx (exec_t st) itm
                 (np_where (map2 (<) y_hat (take_idx intr itm))
                    (replicate (length itm) t_now) (take_idx (exec_t st) itm));
          po = np_where (map (\<lambda>e. e = t_now) ex) intr dcf
      in \<lparr>intrinsic = intr, payoff = po, exec_t = ex, betas = bs\<rparr>)"

text \<open>\<open>range(nt-1, 0, -1)\<close>, and the state after the first \<open>k\<close> iterations of the
  loop; the whole loop runs all of them.\<close>

definition range_down :: "params \<Rightarrow> nat list" where
  "range_down p = rev [1 ..< nat (nt p)]"

definition backward_upto :: "lstsq \<Rightarrow> params \<Rightarrow> real list list \<Rightarrow> nat \<Rightarrow> state" where
  "backward_upto lsq p S k = fold (step lsq p S) (take k (range_down p)) (init_state p S)"

definition backward :: "lstsq \<Rightarrow> params \<Rightarrow> real list list \<Rightarrow> state" where
  "backward lsq p S = fold (step lsq p S) (range_down p) (init_state p S)"

text \<open>Lines 137-141: the price estimate of one repetition.\<close>

definition solve :: "lstsq \<Rightarrow> params \<Rightarrow> real list list \<Rightarrow> real" where
  "solve lsq p S = np_mean (discount p (payoff (backward lsq p S)))"

subsection \<open>The repetitions (lines 54-148)\<close>

definition repetition :: "lstsq \<Rightarrow> params \<Rightarrow> rng \<Rightarrow> (error + real) \<times> rng" where
  "repetition lsq p g =
     (case simulate p g of
        (Inl e, g') \<Rightarrow> (Inl e, g')
      | (Inr S, g') \<Rightarrow> (Inr (solve lsq p S), g'))"

text \<open>\<open>for repnum in range(R)\<close>, storing into \<open>price_estimate[repnum]\<close>.\<close>

fun rep_loop :: "lstsq \<Rightarrow> params \<Rightarrow> nat list \<Rightarrow> real list \<Rightarrow> rng \<Rightarrow> (error + real list) \<times> rng" where
  "rep_loop lsq p [] pe g = (Inr pe, g)"
| "rep_loop lsq p (repnum # rest) pe g =
     (case repetition lsq p g of
        (Inl e, g') \<Rightarrow> (Inl e, g')
      | (Inr price, g') \<Rightarrow> rep_loop lsq p rest (pe[repnum := price]) g')"

text \<open>The whole cell: \<open>price_estimate = np.zeros(R)\<close> (ValueError for a negative
  \<open>R\<close>), the repetitions, and the two numbers printed (their formatting to four
  decimals is left out).\<close>

definition run :: "lstsq \<Rightarrow> params \<Rightarrow> rng \<Rightarrow> (error + real \<times> real) \<times> rng" where
  "run lsq p g =
     (if R p < 0 then (Inl ValueError, g)
      else case rep_loop lsq p [0 ..< nat (R p)] (replicate (nat (R p)) 0) g of
        (Inl e, g') \<Rightarrow> (Inl e, g')
      | (Inr pe, g') \<Rightarrow> (Inr (np_mean pe, np_std pe), g'))"

subsection \<open>The cell with a raising \<open>lstsq\<close> (line 119)\<close>

text \<open>\<open>lstsq\<close> as the call of line 119 behaves: \<open>None\<close> when it raises LinAlgError,
  the coefficient vector otherwise. \<open>returning\<close> is a \<open>lstsq\<close> that never raises,
  \<open>returned\<close> the coefficients of one that may.\<close>

type_synonym lstsq_raising = "real list list \<Rightarrow> real list \<Rightarrow> real list option"


definition returned :: "lstsq_raising \<Rightarrow> lstsq" where
  "returned np X y = (case np X y of Some beta \<Rightarrow> beta | None \<Rightarrow> [])"

text \<open>The body of the backward loop, lines 102-133: the exception of line 119 leaves
  the loop before anything of the state is assigned; otherwise the body goes on with
  the returned \<open>beta\<close>, as \<open>step\<close> does.\<close>

definition step_raising :: "lstsq_raising \<Rightarrow> params \<Rightarrow> real list list \<Rightarrow> nat \<Rightarrow> state \<Rightarrow> error + state" where
  "step_raising np p S t_now st =
     (let dcf = discount p (payoff st);
          itm = itm_paths p (S ! t_now);
          X = design (S ! t_now) itm;
          y = take_idx dcf itm
      in case np X y of
           None \<Rightarrow> Inl LinAlgError
         | Some beta \<Rightarrow>
             let bs = (betas st)[t_now := beta];
                 y_hat = map (\<lambda>row. dot row beta) X;
                 intr = put_idx (intrinsic st) itm
                          (map (\<lambda>s. max (K p - s) 0) (take_idx (S ! t_now) itm));
                 ex = put_idx (exec_t st) itm
                        (np_where (map2 (<) y_hat (take_idx intr itm))
                           (replicate (length itm) t_now) (take_idx (exec_t st) itm));
                 po = np_where (map (\<lambda>e. e = t_now) ex) intr dcf
             in Inr \<lparr>intrinsic = intr, payoff = po, exec_t = ex, betas = bs\<rparr>)"

text \<open>\<open>for t_now in range(nt-1, 0, -1)\<close>, given the list of its indices, stopping at the
  first exception; then lines 137-141, the repetition and the whole cell as before.\<close>

fun backward_raising :: "lstsq_raising \<Rightarrow> params \<Rightarrow> real list list \<Rightarrow> nat list \<Rightarrow> state \<Rightarrow> error + state" where
  "backward_raising np p S [] st = Inr st"
| "backward_raising np p S (t_now # rest) st =
     (case step_raising np p S t_now st of
        Inl e \<Rightarrow> Inl e
      | Inr st' \<Rightarrow> backward_raising np p S rest st')"

definition solve_raising :: "lstsq_raising \<Rightarrow> params \<Rightarrow> real list list \<Rightarrow> error + real" where
  "solve_raising np p S =
     (case backward_raising np p S (range_down p) (init_state p S) of
        Inl e \<Rightarrow> Inl e
      | Inr st \<Rightarrow> Inr (np_mean (discount p (payoff st))))"

definition repetition_raising :: "lstsq_raising \<Rightarrow> params \<Rightarrow> rng \<Rightarrow> (error + real) \<times> rng" where
  "repetition_raising np p g =
     (case simulate p g of
        (Inl e, g') \<Rightarrow> (Inl e, g')
      | (Inr S, g') \<Rightarrow> (solve_raising np p S, g'))"

fun rep_loop_raising ::
  "lstsq_raising \<Rightarrow> params \<Rightarrow> nat list \<Rightarrow> real list \<Rightarrow> rng \<Rightarrow> (error + real list) \<times> rng" where
  "rep_loop_raising np p [] pe g = (Inr pe, g)"
| "rep_loop_raising np p (repnum # rest) pe g =
     (case repetition_raising np p g of
        (Inl e, g') \<Rightarrow> (Inl e, g')
      | (Inr price, g') \<Rightarrow> rep_loop_raising np p rest (pe[repnum := price]) g')"

definition run_raising :: "lstsq_raising \<Rightarrow> params \<Rightarrow> rng \<Rightarrow> (error + real \<times> real) \<times> rng" where
  "run_raising np p g =
     (if R p < 0 then (Inl ValueError, g)
      else case rep_loop_raising np p [0 ..< nat (R p)] (replicate (nat (R p)) 0) g of
        (Inl e, g') \<Rightarrow> (Inl e, g')
      | (Inr pe, g') \<Rightarrow> (Inr (np_mean pe, np_std pe), g'))"

subsection \<open>Notions used to state the properties\<close>

text \<open>The entry of \<open>y_hat = X @ beta\<close> that belongs to path \<open>j\<close> at a step whose column
  is \<open>col\<close> and whose incoming payoff vector is \<open>po\<close>.\<close>

definition fitted :: "lstsq \<Rightarrow> params \<Rightarrow> real list \<Rightarrow> real list \<Rightarrow> nat \<Rightarrow> real" where
  "fitted lsq p col po j =
     dot [1, col ! j, (col ! j)\<^sup>2]
       (lsq (design col (itm_paths p col)) (take_idx (discount p po) (itm_paths p col)))"

text \<open>The draw used for path \<open>j\<close> at time index \<open>i\<close> of a repetition started in
  generator state \<open>g\<close>.\<close>

definition draw_at :: "params \<Rightarrow> rng \<Rightarrow> nat \<Rightarrow> nat \<Rightarrow> real" where
  "draw_at p g i j = draws g (pos g + (i - 1) * nat (N p) + j)"

text \<open>A table of the shape the simulation produces: \<open>nt + 1\<close> columns of \<open>N\<close> entries.\<close>

definition batch_ok :: "params \<Rightarrow> real list list \<Rightarrow> bool" where
  "batch_ok p S \<longleftrightarrow>
     0 \<le> N p \<and> 0 \<le> nt p \<and> length S = nat (nt p) + 1 \<and> (\<forall>col\<in>set S. length col = nat (N p))"

text \<open>The generator state at the start of repetition \<open>k\<close> of a run started in state
  \<open>g\<close> (every repetition consumes \<open>nt * N\<close> draws), and the price estimate of a
  repetition started in state \<open>g\<close>.\<close>

definition rep_rng :: "params \<Rightarrow> rng \<Rightarrow> nat \<Rightarrow> rng" where
  "rep_rng p g k = g\<lparr>pos := pos g + k * (nat (nt p) * nat (N p))\<rparr>"

definition price_of :: "lstsq \<Rightarrow> params \<Rightarrow> rng \<Rightarrow> real" where
  "price_of lsq p g = (case fst (repetition lsq p g) of Inr x \<Rightarrow> x | Inl e \<Rightarrow> 0)"

text \<open>The defining property of a least-squares solver: its answer minimises the
  squared residual \<open>|X b - y|^2\<close> over all coefficient vectors \<open>b\<close>.\<close>

definition sq_residual :: "real list list \<Rightarrow> real list \<Rightarrow> real list \<Rightarrow> real" where
  "sq_residual X y b = sum_list (map2 (\<lambda>row yi. (dot row b - yi)\<^sup>2) X y)"

definition least_squares :: "lstsq \<Rightarrow> bool" where
  "least_squares lsq \<longleftrightarrow> (\<forall>X y b. sq_residual X y (lsq X y) \<le> sq_residual X y b)"

text \<open>What such a fit does with a constant target when the design matrix has the
  intercept column: the constant lies in the column space, so the minimiser reproduces
  it exactly (\<open>least_squares_fits_constants\<close> below). Nothing else is assumed of
  \<open>numpy.linalg.lstsq\<close>, and this only where a statement is about the fitted values.\<close>

definition fits_constants :: "lstsq \<Rightarrow> bool" where
  "fits_constants lsq \<longleftrightarrow>
     (\<forall>X c. (\<forall>row\<in>set X. \<exists>s. row = [1, s, s\<^sup>2]) \<longrightarrow>
        map (\<lambda>row. dot row (lsq X (replicate (length X) c))) X = replicate (length X) c)"

text \<open>The standard deviation as the specification words it for the aggregate: the
  square root of the sum of squared deviations from the mean divided by \<open>R - 1\<close>. It is
  compared with \<open>np_std\<close>, which is what the cell calls.\<close>

definition spec_sample_std :: "real list \<Rightarrow> real" where
  "spec_sample_std xs =
     sqrt (sum_list (map (\<lambda>x. (x - np_mean xs)\<^sup>2) xs) / (real (length xs) - 1))"

subsection \<open>Sample inputs\<close>

text \<open>A regression used at concrete inputs: zero coefficients for a system without
  rows, as numpy returns them, and otherwise the constant fit through the first
  target value.\<close>

definition lstsq_intercept :: lstsq where
  "lstsq_intercept X y = (case y of [] \<Rightarrow> [0, 0, 0] | c # _ \<Rightarrow> [c, 0, 0])"


text \<open>Two paths over two time steps, a generator whose draws are all 0, a table in
  which path 0 falls and path 1 rises, and a table whose two paths are both out of
  the money at time index 1.\<close>

definition demo_params :: params where
  "demo_params = \<lparr>r = 0, K = 1, dt = 1, nt = 2, N = 2, R = 2, S0 = 1, sigma = 1\<rparr>"

definition demo_rng :: rng where
  "demo_rng = \<lparr>draws = (\<lambda>n. 0), pos = 0\<rparr>"

definition demo_batch :: "real list list" where
  "demo_batch = [[1, 1], [1 / 2, 2], [1 / 4, 3]]"

definition otm_batch :: "real list list" where
  "otm_batch = [[1, 1], [2, 3], [1 / 2, 4]]"

text \<open>Two tables for \<open>demo_params\<close> and \<open>lstsq_intercept\<close>. In the first, at time
  index 1, path 1 is exactly at the strike and the fitted value of path 0 equals its
  intrinsic value 1/2; in the second path 0 is exercised at time index 1 (fitted value
  1/2 against intrinsic value 3/4).\<close>

definition atm_batch :: "real list list" where
  "atm_batch = [[1, 1], [1 / 2, 1], [1 / 2, 3]]"

definition exercise_batch :: "real list list" where
  "exercise_batch = [[1, 1], [1 / 4, 2], [1 / 2, 3]]"

text \<open>Two repetitions of one path and one time step, with \<open>K = 2\<close>: the first draw
  leaves the price at 1, the second doubles it.\<close>

definition two_rep_params :: params where
  "two_rep_params = \<lparr>r = 0, K = 2, dt = 1, nt = 1, N = 1, R = 2, S0 = 1, sigma = 1\<rparr>"

definition two_rep_rng :: rng where
  "two_rep_rng = \<lparr>draws = (\<lambda>n. if n = 0 then 1 / 2 else 1 / 2 + ln 2), pos = 0\<rparr>"




text \<open>Zero volatility and zero rate, once in the money and once out of the money.\<close>

definition flat_params :: params where
  "flat_params = \<lparr>r = 0, K = 1, dt = 1, nt = 2, N = 2, R = 1, S0 = 1 / 2, sigma = 0\<rparr>"

definition flat_otm_params :: params where
  "flat_otm_params = \<lparr>r = 0, K = 1, dt = 1, nt = 2, N = 2, R = 1, S0 = 2, sigma = 0\<rparr>"



section \<open>Auxiliary facts\<close>

subsection \<open>Array operations\<close>

lemma length_fold_update: "length (fold (\<lambda>(i, v) b. b[i := v]) zs a) = length a"
  by (induction zs arbitrary: a) auto

lemma length_put_idx: "length (put_idx a idx vals) = length a"
  by (simp add: put_idx_def length_fold_update)

lemma put_idx_map_nth:
  "distinct idx \<Longrightarrow> \<forall>i\<in>set idx. i < length a \<Longrightarrow>
   put_idx a idx (map f idx) ! j = (if j \<in> set idx then f j else a ! j)"
proof (induction idx arbitrary: a)
  case Nil
  then show ?case by (simp add: put_idx_def)
next
  case (Cons i idx)
  have step: "put_idx a (i # idx) (map f (i # idx)) = put_idx (a[i := f i]) idx (map f idx)"
    by (simp add: put_idx_def)
  from Cons.prems have d: "distinct idx" and ni: "i \<notin> set idx"
    and r: "\<forall>k\<in>set idx. k < length (a[i := f i])" and il: "i < length a"
    by auto
  show ?case
    unfolding step Cons.IH [OF d r]
    using ni il by (auto simp: nth_list_update)
qed

lemma np_where_map:
  "np_where (map c xs) (map a xs) (map b xs) = map (\<lambda>x. if c x then a x else b x) xs"
  unfolding np_where_def by (induction xs) auto

lemma length_np_where:
  "length a = length c \<Longrightarrow> length b = length c \<Longrightarrow> length (np_where c a b) = length c"
  by (simp add: np_where_def)

lemma np_where_nth:
  "length a = length c \<Longrightarrow> length b = length c \<Longrightarrow> j < length c \<Longrightarrow>
   np_where c a b ! j = (if c ! j then a ! j else b ! j)"
  by (simp add: np_where_def)

lemma distinct_itm_paths: "distinct (itm_paths p col)"
  by (simp add: itm_paths_def)

lemma set_itm_paths: "set (itm_paths p col) = {j. j < length col \<and> col ! j < K p}"
  by (auto simp: itm_paths_def)

lemma itm_paths_bound: "\<forall>i\<in>set (itm_paths p col). i < length col"
  by (simp add: set_itm_paths)

lemma length_step:
  "length (intrinsic (step lsq p S t st)) = length (intrinsic st)"
  "length (exec_t (step lsq p S t st)) = length (exec_t st)"
  by (simp_all add: step_def Let_def length_put_idx)

lemma step_intrinsic_nth:
  assumes "length (intrinsic st) = length (S ! t)"
  shows "intrinsic (step lsq p S t st) ! j =
           (if j < length (S ! t) \<and> S ! t ! j < K p then max (K p - S ! t ! j) 0 else intrinsic st ! j)"
proof -
  have "intrinsic (step lsq p S t st) =
          put_idx (intrinsic st) (itm_paths p (S ! t))
            (map (\<lambda>i. max (K p - S ! t ! i) 0) (itm_paths p (S ! t)))"
    by (simp add: step_def Let_def take_idx_def comp_def)
  then show ?thesis
    using put_idx_map_nth [OF distinct_itm_paths, of p "S ! t" "intrinsic st"
        "\<lambda>i. max (K p - S ! t ! i) 0" j] assms
    by (simp add: set_itm_paths)
qed

lemma step_exec_t_nth:
  assumes "length (intrinsic st) = length (S ! t)" "length (exec_t st) = length (S ! t)"
  shows "exec_t (step lsq p S t st) ! j =
           (if j < length (S ! t) \<and> S ! t ! j < K p \<and>
               fitted lsq p (S ! t) (payoff st) j < max (K p - S ! t ! j) 0
            then t else exec_t st ! j)"
proof -
  let ?itm = "itm_paths p (S ! t)"
  let ?intr = "intrinsic (step lsq p S t st)"
  have "exec_t (step lsq p S t st) =
          put_idx (exec_t st) ?itm
            (np_where (map (\<lambda>i. fitted lsq p (S ! t) (payoff st) i < ?intr ! i) ?itm)
               (map (\<lambda>i. t) ?itm) (map (\<lambda>i. exec_t st ! i) ?itm))"
    by (simp add: step_def Let_def take_idx_def design_def fitted_def map2_map_map
        map_replicate_const)
  then have "exec_t (step lsq p S t st) =
          put_idx (exec_t st) ?itm
            (map (\<lambda>i. if fitted lsq p (S ! t) (payoff st) i < ?intr ! i then t else exec_t st ! i) ?itm)"
    by (simp only: np_where_map)
  then have eq: "exec_t (step lsq p S t st) ! j =
      (if j \<in> set ?itm
       then (if fitted lsq p (S ! t) (payoff st) j < ?intr ! j then t else exec_t st ! j)
       else exec_t st ! j)"
    using put_idx_map_nth [OF distinct_itm_paths, of p "S ! t" "exec_t st"
        "\<lambda>i. if fitted lsq p (S ! t) (payoff st) i < ?intr ! i then t else exec_t st ! i" j] assms
    by (simp add: set_itm_paths)
  show ?thesis
  proof (cases "j < length (S ! t) \<and> S ! t ! j < K p")
    case True
    then have "?intr ! j = max (K p - S ! t ! j) 0"
      using assms by (simp add: step_intrinsic_nth)
    with True eq show ?thesis by (simp add: set_itm_paths)
  next
    case False
    with eq show ?thesis by (auto simp: set_itm_paths)
  qed
qed

lemma step_payoff:
  "payoff (step lsq p S t st) =
     np_where (map (\<lambda>e. e = t) (exec_t (step lsq p S t st))) (intrinsic (step lsq p S t st))
       (discount p (payoff st))"
  by (simp add: step_def Let_def)

lemma length_step_payoff:
  assumes "length (intrinsic st) = n" "length (exec_t st) = n" "length (payoff st) = n"
  shows "length (payoff (step lsq p S t st)) = n"
  using assms by (simp add: step_payoff length_np_where length_step discount_def)

lemma step_payoff_nth:
  assumes "length (intrinsic st) = n" "length (exec_t st) = n" "length (payoff st) = n" "j < n"
  shows "payoff (step lsq p S t st) ! j =
           (if exec_t (step lsq p S t st) ! j = t then intrinsic (step lsq p S t st) ! j
            else exp (- r p * dt p) * payoff st ! j)"
  using assms by (simp add: step_payoff np_where_nth length_step discount_def)

subsection \<open>The simulation loop\<close>

lemma path_step_fold_Suc:
  "fold (path_step p) [1 ..< Suc (Suc k)] a = path_step p (Suc k) (fold (path_step p) [1 ..< Suc k] a)"
  by simp

lemma fold_path_step_inv:
  assumes len: "length S = Suc n" and cols: "\<forall>i\<le>n. length (S ! i) = nat (N p)"
    and k: "k \<le> n"
  shows "case fold (path_step p) [1 ..< Suc k] (S, g) of (S', g') \<Rightarrow>
           length S' = Suc n \<and> g' = g\<lparr>pos := pos g + k * nat (N p)\<rparr> \<and>
           (\<forall>i\<le>n. length (S' ! i) = nat (N p)) \<and> S' ! 0 = S ! 0 \<and>
           (\<forall>i j. 1 \<le> i \<and> i \<le> k \<and> j < nat (N p) \<longrightarrow>
              S' ! i ! j = S' ! (i - 1) ! j * growth p (draw_at p g i j))"
  using k
proof (induction k)
  case 0
  then show ?case using len cols by simp
next
  case (Suc k)
  obtain S1 g1 where f: "fold (path_step p) [1 ..< Suc k] (S, g) = (S1, g1)"
    by (cases "fold (path_step p) [1 ..< Suc k] (S, g)")
  from Suc f have l1: "length S1 = Suc n" and g1: "g1 = g\<lparr>pos := pos g + k * nat (N p)\<rparr>"
    and c1: "\<forall>i\<le>n. length (S1 ! i) = nat (N p)" and z1: "S1 ! 0 = S ! 0"
    and r1: "\<forall>i j. 1 \<le> i \<and> i \<le> k \<and> j < nat (N p) \<longrightarrow>
              S1 ! i ! j = S1 ! (i - 1) ! j * growth p (draw_at p g i j)"
    by auto
  define Z where "Z = map (draws g1) [pos g1 ..< pos g1 + nat (N p)]"
  define S2 where "S2 = S1[Suc k := map2 (\<lambda>s z. s * growth p z) (S1 ! k) Z]"
  have ps: "path_step p (Suc k) (S1, g1) = (S2, g1\<lparr>pos := pos g1 + nat (N p)\<rparr>)"
    by (simp add: path_step_def normal_def Z_def S2_def)
  have lk: "length (S1 ! k) = nat (N p)" using c1 Suc.prems by simp
  have lZ: "length Z = nat (N p)" by (simp add: Z_def)
  have new: "S2 ! Suc k = map2 (\<lambda>s z. s * growth p z) (S1 ! k) Z"
    using l1 Suc.prems by (simp add: S2_def)
  have old: "\<And>i. i \<noteq> Suc k \<Longrightarrow> S2 ! i = S1 ! i"
    by (simp add: S2_def)
  have newj: "\<And>j. j < nat (N p) \<Longrightarrow> S2 ! Suc k ! j = S1 ! k ! j * growth p (draw_at p g (Suc k) j)"
    using lk lZ by (simp add: new Z_def g1 draw_at_def)
  have "length S2 = Suc n" by (simp add: S2_def l1)
  moreover have "g1\<lparr>pos := pos g1 + nat (N p)\<rparr> = g\<lparr>pos := pos g + Suc k * nat (N p)\<rparr>"
    by (simp add: g1 algebra_simps)
  moreover have "\<forall>i\<le>n. length (S2 ! i) = nat (N p)"
  proof (intro allI impI)
    fix i assume "i \<le> n"
    then show "length (S2 ! i) = nat (N p)"
      using c1 lk lZ by (cases "i = Suc k") (simp_all add: new old)
  qed
  moreover have "S2 ! 0 = S ! 0" using z1 by (simp add: old)
  moreover have "\<forall>i j. 1 \<le> i \<and> i \<le> Suc k \<and> j < nat (N p) \<longrightarrow>
              S2 ! i ! j = S2 ! (i - 1) ! j * growth p (draw_at p g i j)"
  proof (intro allI impI)
    fix i j assume a: "1 \<le> i \<and> i \<le> Suc k \<and> j < nat (N p)"
    show "S2 ! i ! j = S2 ! (i - 1) ! j * growth p (draw_at p g i j)"
    proof (cases "i = Suc k")
      case True
      then show ?thesis using a newj by (simp add: old)
    next
      case False
      with a have "i \<le> k" "i - 1 \<noteq> Suc k" by auto
      then show ?thesis using a r1 False by (simp add: old)
    qed
  qed
  ultimately show ?case
    unfolding path_step_fold_Suc f ps by simp
qed

lemma simulate_success:
  assumes n0: "0 \<le> N p" and t0: "0 \<le> nt p"
  shows "\<exists>S. simulate p g = (Inr S, g\<lparr>pos := pos g + nat (nt p) * nat (N p)\<rparr>) \<and>
           batch_ok p S \<and> S ! 0 = replicate (nat (N p)) (S0 p) \<and>
           (\<forall>i j. 1 \<le> i \<and> i \<le> nat (nt p) \<and> j < nat (N p) \<longrightarrow>
              S ! i ! j = S ! (i - 1) ! j * growth p (draw_at p g i j))"
proof -
  define n where "n = nat (nt p)"
  define A where "A = (replicate (Suc n) (replicate (nat (N p)) (0::real)))[0 := replicate (nat (N p)) (S0 p)]"
  have sn: "nat (nt p + 1) = Suc n" using t0 by (simp add: n_def)
  have lenA: "length A = Suc n" by (simp add: A_def)
  have colsA: "\<forall>i\<le>n. length (A ! i) = nat (N p)"
    by (auto simp: A_def nth_Cons split: nat.splits)
  have A0: "A ! 0 = replicate (nat (N p)) (S0 p)" by (simp add: A_def)
  obtain S' g' where f: "fold (path_step p) [1 ..< Suc n] (A, g) = (S', g')"
    by (cases "fold (path_step p) [1 ..< Suc n] (A, g)")
  have inv: "length S' = Suc n \<and> g' = g\<lparr>pos := pos g + n * nat (N p)\<rparr> \<and>
           (\<forall>i\<le>n. length (S' ! i) = nat (N p)) \<and> S' ! 0 = A ! 0 \<and>
           (\<forall>i j. 1 \<le> i \<and> i \<le> n \<and> j < nat (N p) \<longrightarrow>
              S' ! i ! j = S' ! (i - 1) ! j * growth p (draw_at p g i j))"
    using fold_path_step_inv [OF lenA colsA order_refl, of g] f by simp
  have sim: "simulate p g = (Inr S', g')"
    using n0 t0 f by (simp add: simulate_def sn A_def Let_def)
  have "\<forall>col\<in>set S'. length col = nat (N p)"
    using inv by (auto simp: in_set_conv_nth)
  then show ?thesis
    using sim inv A0 by (simp add: batch_ok_def n0 t0 n_def)
qed

subsection \<open>The backward loop\<close>

lemma backward_upto_0: "backward_upto lsq p S 0 = init_state p S"
  by (simp add: backward_upto_def)

lemma range_down_nth: "k < nat (nt p) - 1 \<Longrightarrow> range_down p ! k = nat (nt p) - 1 - k"
  by (simp add: range_down_def rev_nth)

lemma backward_upto_Suc:
  assumes "k < nat (nt p) - 1"
  shows "backward_upto lsq p S (Suc k) = step lsq p S (nat (nt p) - 1 - k) (backward_upto lsq p S k)"
proof -
  have "k < length (range_down p)" using assms by (simp add: range_down_def)
  then have "take (Suc k) (range_down p) = take k (range_down p) @ [range_down p ! k]"
    by (rule take_Suc_conv_app_nth)
  then show ?thesis
    using assms by (simp add: backward_upto_def range_down_nth)
qed

lemma backward_upto_all:
  "nat (nt p) - 1 \<le> k \<Longrightarrow> backward_upto lsq p S k = backward lsq p S"
  by (simp add: backward_upto_def backward_def range_down_def)

lemma batch_ok_last: "batch_ok p S \<Longrightarrow> last S = S ! nat (nt p)"
  by (cases "S = []") (auto simp: batch_ok_def last_conv_nth)

lemma col_length: "batch_ok p S \<Longrightarrow> t \<le> nat (nt p) \<Longrightarrow> length (S ! t) = nat (N p)"
  by (simp add: batch_ok_def)

lemma batch_ok_length: "batch_ok p S \<Longrightarrow> length S = nat (nt p) + 1"
  by (simp add: batch_ok_def)

lemma init_state_lengths:
  assumes "batch_ok p S"
  shows "length (intrinsic (init_state p S)) = nat (N p)"
    "length (payoff (init_state p S)) = nat (N p)"
    "length (exec_t (init_state p S)) = nat (N p)"
  using batch_ok_last [OF assms] col_length [OF assms order_refl]
  by (simp_all add: init_state_def Let_def)

lemma backward_upto_lengths:
  assumes ok: "batch_ok p S" and k: "k \<le> nat (nt p) - 1"
  shows "length (intrinsic (backward_upto lsq p S k)) = nat (N p) \<and>
         length (payoff (backward_upto lsq p S k)) = nat (N p) \<and>
         length (exec_t (backward_upto lsq p S k)) = nat (N p)"
  using k
proof (induction k)
  case 0
  then show ?case using init_state_lengths [OF ok] by (simp add: backward_upto_0)
next
  case (Suc k)
  then have lt: "k < nat (nt p) - 1" by simp
  from Suc have IH: "length (intrinsic (backward_upto lsq p S k)) = nat (N p)"
    "length (payoff (backward_upto lsq p S k)) = nat (N p)"
    "length (exec_t (backward_upto lsq p S k)) = nat (N p)" by simp_all
  show ?case
    unfolding backward_upto_Suc [OF lt]
    using IH by (simp add: length_step length_step_payoff)
qed

lemma step_exec_t_cases:
  assumes ok: "batch_ok p S" and t: "t \<le> nat (nt p)"
    and li: "length (intrinsic st) = nat (N p)" and le: "length (exec_t st) = nat (N p)"
  shows "exec_t (step lsq p S t st) ! j =
           (if j < nat (N p) \<and> S ! t ! j < K p \<and>
               fitted lsq p (S ! t) (payoff st) j < max (K p - S ! t ! j) 0
            then t else exec_t st ! j)"
  using step_exec_t_nth [of st S t lsq p j] col_length [OF ok t] li le by simp

lemma backward_upto_exec_t_bounds:
  assumes ok: "batch_ok p S" and k: "k \<le> nat (nt p) - 1" and j: "j < nat (N p)"
  shows "nat (nt p) - k \<le> exec_t (backward_upto lsq p S k) ! j \<and>
         exec_t (backward_upto lsq p S k) ! j \<le> nat (nt p)"
  using k
proof (induction k)
  case 0
  then show ?case using j by (simp add: backward_upto_0 init_state_def Let_def)
next
  case (Suc k)
  then have lt: "k < nat (nt p) - 1" by simp
  let ?st = "backward_upto lsq p S k"
  have L: "length (intrinsic ?st) = nat (N p)" "length (exec_t ?st) = nat (N p)"
    using backward_upto_lengths [OF ok, of k lsq] lt by simp_all
  have t: "nat (nt p) - 1 - k \<le> nat (nt p)" by simp
  from Suc have IH: "nat (nt p) - k \<le> exec_t ?st ! j" "exec_t ?st ! j \<le> nat (nt p)"
    by simp_all
  then have "nat (nt p) - Suc k \<le> exec_t ?st ! j" by linarith
  with IH(2) show ?case
    unfolding backward_upto_Suc [OF lt] step_exec_t_cases [OF ok t L]
    by simp
qed

lemma backward_upto_min:
  "backward_upto lsq p S k = backward_upto lsq p S (min k (nat (nt p) - 1))"
  by (simp add: backward_upto_def range_down_def min_def)

lemma np_where_all_false:
  assumes "length c = length b" and "length a = length b" and "\<forall>i<length b. \<not> c ! i"
  shows "np_where c a b = b"
proof (rule nth_equalityI)
  show "length (np_where c a b) = length b"
    using assms(1,2) by (simp add: np_where_def)
next
  fix i assume "i < length (np_where c a b)"
  then have i: "i < length b" using assms(1,2) by (simp add: np_where_def)
  then have "\<not> c ! i" using assms(3) by simp
  then show "np_where c a b ! i = b ! i"
    using assms(1,2) i by (simp add: np_where_nth)
qed

lemma step_intrinsic_cases:
  assumes ok: "batch_ok p S" and t: "t \<le> nat (nt p)"
    and li: "length (intrinsic st) = nat (N p)"
  shows "intrinsic (step lsq p S t st) ! j =
           (if j < nat (N p) \<and> S ! t ! j < K p then max (K p - S ! t ! j) 0 else intrinsic st ! j)"
  using step_intrinsic_nth [of st S t lsq p j] col_length [OF ok t] li by simp

lemma set_itm_paths_batch:
  "batch_ok p S \<Longrightarrow> t \<le> nat (nt p) \<Longrightarrow>
   set (itm_paths p (S ! t)) = {j. j < nat (N p) \<and> S ! t ! j < K p}"
  by (simp add: set_itm_paths col_length)

lemma loop_step_facts:
  fixes lsq :: lstsq and p :: params and S :: "real list list" and k j :: nat
  assumes ok: "batch_ok p S" and k: "k < nat (nt p) - 1" and j: "j < nat (N p)"
  defines "t \<equiv> nat (nt p) - 1 - k"
  defines "st \<equiv> backward_upto lsq p S k"
  defines "st' \<equiv> backward_upto lsq p S (Suc k)"
  shows "st' = step lsq p S t st"
    and "t < exec_t st ! j"
    and "intrinsic st' ! j = (if S ! t ! j < K p then max (K p - S ! t ! j) 0 else intrinsic st ! j)"
    and "exec_t st' ! j =
           (if S ! t ! j < K p \<and> fitted lsq p (S ! t) (payoff st) j < max (K p - S ! t ! j) 0
            then t else exec_t st ! j)"
    and "payoff st' ! j =
           (if exec_t st' ! j = t then intrinsic st' ! j else exp (- r p * dt p) * payoff st ! j)"
proof -
  have tn: "t \<le> nat (nt p)" by (simp add: t_def)
  have L: "length (intrinsic st) = nat (N p)" "length (payoff st) = nat (N p)"
    "length (exec_t st) = nat (N p)"
    using backward_upto_lengths [OF ok, of k lsq] k by (simp_all add: st_def)
  show s: "st' = step lsq p S t st"
    unfolding st'_def st_def t_def by (rule backward_upto_Suc [OF k])
  have "nat (nt p) - k \<le> exec_t st ! j"
    using backward_upto_exec_t_bounds [OF ok _ j, of k lsq] k by (simp add: st_def)
  then show "t < exec_t st ! j" using k by (simp add: t_def)
  show "intrinsic st' ! j = (if S ! t ! j < K p then max (K p - S ! t ! j) 0 else intrinsic st ! j)"
    unfolding s step_intrinsic_cases [OF ok tn L(1)] using j by simp
  show "exec_t st' ! j =
           (if S ! t ! j < K p \<and> fitted lsq p (S ! t) (payoff st) j < max (K p - S ! t ! j) 0
            then t else exec_t st ! j)"
    unfolding s step_exec_t_cases [OF ok tn L(1) L(3)] using j by simp
  show "payoff st' ! j =
           (if exec_t st' ! j = t then intrinsic st' ! j else exp (- r p * dt p) * payoff st ! j)"
    unfolding s by (rule step_payoff_nth [OF L(1) L(3) L(2) j])
qed

lemma step_empty_itm:
  assumes itm: "itm_paths p (S ! t) = []"
    and L: "length (intrinsic st) = length (payoff st)" "length (exec_t st) = length (payoff st)"
    and ne: "\<forall>j<length (payoff st). exec_t st ! j \<noteq> t"
  shows "step lsq p S t st =
           \<lparr>intrinsic = intrinsic st, payoff = discount p (payoff st), exec_t = exec_t st,
            betas = (betas st)[t := lsq [] []]\<rparr>"
proof -
  have w: "np_where (map (\<lambda>e. e = t) (exec_t st)) (intrinsic st) (discount p (payoff st)) =
        discount p (payoff st)"
    using L ne by (intro np_where_all_false) (simp_all add: discount_def)
  show ?thesis
    using w by (simp add: step_def Let_def itm design_def take_idx_def put_idx_def np_where_def)
qed

subsection \<open>The payoff along the backward loop\<close>

lemma exp_one_more: "exp (c * (x + 1)) = exp c * exp (c * (x::real))"
  by (simp add: distrib_left exp_add mult.commute)

lemma payoff_formula:
  assumes ok: "batch_ok p S" and k: "k \<le> nat (nt p) - 1" and j: "j < nat (N p)"
  shows "payoff (backward_upto lsq p S k) ! j =
           exp (- r p * dt p * real (exec_t (backward_upto lsq p S k) ! j - (nat (nt p) - k))) *
           max (K p - S ! (exec_t (backward_upto lsq p S k) ! j) ! j) 0"
  using k
proof (induction k)
  case 0
  have "last S = S ! nat (nt p)" by (rule batch_ok_last [OF ok])
  moreover have "length (S ! nat (nt p)) = nat (N p)" by (rule col_length [OF ok order_refl])
  ultimately show ?case
    using j by (simp add: backward_upto_0 init_state_def Let_def)
next
  case (Suc k)
  then have lt: "k < nat (nt p) - 1" by simp
  let ?t = "nat (nt p) - 1 - k"
  let ?s = "S ! ?t ! j"
  let ?st = "backward_upto lsq p S k"
  let ?st' = "backward_upto lsq p S (Suc k)"
  let ?f = "fitted lsq p (S ! ?t) (payoff ?st) j"
  let ?d = "exp (- r p * dt p)"
  note facts = loop_step_facts [OF ok lt j, of lsq]
  have IH: "payoff ?st ! j =
      exp (- r p * dt p * real (exec_t ?st ! j - (nat (nt p) - k))) *
      max (K p - S ! (exec_t ?st ! j) ! j) 0"
    using Suc by simp
  have tk: "nat (nt p) - Suc k = ?t" by simp
  have I: "intrinsic ?st' ! j = (if ?s < K p then max (K p - ?s) 0 else intrinsic ?st ! j)"
    by (rule facts(3))
  have E: "exec_t ?st' ! j = (if ?s < K p \<and> ?f < max (K p - ?s) 0 then ?t else exec_t ?st ! j)"
    by (rule facts(4))
  have P: "payoff ?st' ! j =
      (if exec_t ?st' ! j = ?t then intrinsic ?st' ! j else ?d * payoff ?st ! j)"
    by (rule facts(5))
  have gt: "?t < exec_t ?st ! j" by (rule facts(2))
  show ?case
  proof (cases "exec_t ?st' ! j = ?t")
    case True
    then have itm: "?s < K p"
      using E gt by (cases "?s < K p") simp_all
    have "payoff ?st' ! j = max (K p - ?s) 0"
      using P True I itm by simp
    then show ?thesis
      unfolding tk using True by simp
  next
    case False
    then have same: "exec_t ?st' ! j = exec_t ?st ! j"
      using E by (simp split: if_splits)
    have "exec_t ?st ! j - ?t = Suc (exec_t ?st ! j - (nat (nt p) - k))"
      using gt lt by linarith
    then have "real (exec_t ?st ! j - ?t) = real (exec_t ?st ! j - (nat (nt p) - k)) + 1"
      by (simp only: of_nat_Suc add.commute)
    then have "exp (- r p * dt p * real (exec_t ?st ! j - ?t)) =
        ?d * exp (- r p * dt p * real (exec_t ?st ! j - (nat (nt p) - k)))"
      by (simp only: exp_one_more)
    moreover have "payoff ?st' ! j = ?d * payoff ?st ! j"
      using P False by simp
    ultimately show ?thesis
      unfolding tk same using IH by simp
  qed
qed

lemma payoff_nonneg:
  assumes ok: "batch_ok p S" and j: "j < nat (N p)"
  shows "0 \<le> payoff (backward_upto lsq p S k) ! j"
proof -
  define m where "m = min k (nat (nt p) - 1)"
  have "m \<le> nat (nt p) - 1" by (simp add: m_def)
  note f = payoff_formula [OF ok this j, of lsq]
  have "0 \<le> exp (- r p * dt p * real (exec_t (backward_upto lsq p S m) ! j - (nat (nt p) - m))) *
           max (K p - S ! (exec_t (backward_upto lsq p S m) ! j) ! j) 0"
    by (intro mult_nonneg_nonneg) simp_all
  then have "0 \<le> payoff (backward_upto lsq p S m) ! j"
    by (simp only: f)
  then show ?thesis
    unfolding m_def by (simp only: backward_upto_min [symmetric])
qed

subsection \<open>The repetitions\<close>

lemma rep_rng_0: "rep_rng p g 0 = g"
  by (simp add: rep_rng_def)

lemma rep_rng_Suc: "rep_rng p (rep_rng p g 1) k = rep_rng p g (Suc k)"
  by (simp add: rep_rng_def algebra_simps)

lemma repetition_success:
  assumes "0 \<le> N p" and "0 \<le> nt p"
  shows "\<exists>S. batch_ok p S \<and> simulate p g = (Inr S, rep_rng p g 1) \<and>
           repetition lsq p g = (Inr (solve lsq p S), rep_rng p g 1)"
proof -
  obtain S where S: "simulate p g = (Inr S, g\<lparr>pos := pos g + nat (nt p) * nat (N p)\<rparr>)"
    "batch_ok p S"
    using simulate_success [OF assms, of g] by blast
  then show ?thesis
    by (intro exI [of _ S]) (simp add: repetition_def rep_rng_def)
qed

lemma repetition_price:
  assumes "0 \<le> N p" and "0 \<le> nt p"
  shows "repetition lsq p g = (Inr (price_of lsq p g), rep_rng p g 1)"
  using repetition_success [OF assms, of g lsq] by (auto simp: price_of_def)

lemma rep_loop_success:
  assumes n0: "0 \<le> N p" and t0: "0 \<le> nt p"
  shows "a + m \<le> length pe \<Longrightarrow>
         rep_loop lsq p [a ..< a + m] pe g =
           (Inr (take a pe @ map (\<lambda>i. price_of lsq p (rep_rng p g i)) [0 ..< m] @ drop (a + m) pe),
            rep_rng p g m)"
proof (induction m arbitrary: a pe g)
  case 0
  then show ?case by (simp add: rep_rng_0)
next
  case (Suc m)
  let ?x = "price_of lsq p g"
  let ?g = "rep_rng p g 1"
  have a: "a < length pe" using Suc.prems by simp
  have up: "[a ..< a + Suc m] = a # [Suc a ..< Suc a + m]"
    by (simp add: upt_conv_Cons)
  have len: "Suc a + m \<le> length (pe[a := ?x])" using Suc.prems by simp
  have IH: "rep_loop lsq p [Suc a ..< Suc a + m] (pe[a := ?x]) ?g =
      (Inr (take (Suc a) (pe[a := ?x]) @ map (\<lambda>i. price_of lsq p (rep_rng p ?g i)) [0 ..< m] @
            drop (Suc a + m) (pe[a := ?x])),
       rep_rng p ?g m)"
    by (rule Suc.IH [OF len])
  have t: "take (Suc a) (pe[a := ?x]) = take a pe @ [?x]"
    using a by (simp add: take_Suc_conv_app_nth)
  have d: "drop (Suc a + m) (pe[a := ?x]) = drop (a + Suc m) pe"
    by simp
  have mp: "?x # map (\<lambda>i. price_of lsq p (rep_rng p ?g i)) [0 ..< m] =
      map (\<lambda>i. price_of lsq p (rep_rng p g i)) [0 ..< Suc m]"
    unfolding map_upt_Suc by (simp add: rep_rng_0 rep_rng_Suc [unfolded One_nat_def])
  have "rep_loop lsq p [a ..< a + Suc m] pe g =
      rep_loop lsq p [Suc a ..< Suc a + m] (pe[a := ?x]) ?g"
    unfolding up by (simp add: repetition_price [OF n0 t0])
  also have "\<dots> = (Inr ((take a pe @ [?x]) @ map (\<lambda>i. price_of lsq p (rep_rng p ?g i)) [0 ..< m] @
            drop (a + Suc m) pe), rep_rng p g (Suc m))"
    unfolding IH t d rep_rng_Suc ..
  also have "(take a pe @ [?x]) @ map (\<lambda>i. price_of lsq p (rep_rng p ?g i)) [0 ..< m] @
            drop (a + Suc m) pe =
        take a pe @ map (\<lambda>i. price_of lsq p (rep_rng p g i)) [0 ..< Suc m] @ drop (a + Suc m) pe"
    unfolding mp [symmetric] by simp
  finally show ?case .
qed

lemma run_success:
  assumes r0: "0 \<le> R p" and ok: "R p = 0 \<or> (0 \<le> N p \<and> 0 \<le> nt p)"
  shows "run lsq p g =
           (Inr (np_mean (map (\<lambda>i. price_of lsq p (rep_rng p g i)) [0 ..< nat (R p)]),
                 np_std (map (\<lambda>i. price_of lsq p (rep_rng p g i)) [0 ..< nat (R p)])),
            rep_rng p g (nat (R p)))"
proof (cases "R p = 0")
  case True
  then show ?thesis by (simp add: run_def rep_rng_0)
next
  case False
  then have n0: "0 \<le> N p" and t0: "0 \<le> nt p" using ok by simp_all
  have "rep_loop lsq p [0 ..< 0 + nat (R p)] (replicate (nat (R p)) 0) g =
      (Inr (take 0 (replicate (nat (R p)) 0) @
            map (\<lambda>i. price_of lsq p (rep_rng p g i)) [0 ..< nat (R p)] @
            drop (0 + nat (R p)) (replicate (nat (R p)) 0)),
       rep_rng p g (nat (R p)))"
    by (rule rep_loop_success [OF n0 t0]) simp
  then show ?thesis
    using r0 by (simp add: run_def)
qed

lemma rep_rng_add: "rep_rng p (rep_rng p g a) b = rep_rng p g (a + b)"
  by (simp add: rep_rng_def algebra_simps)

lemma np_mean_nonneg: "\<forall>x\<in>set xs. 0 \<le> x \<Longrightarrow> 0 \<le> np_mean xs"
  by (simp add: np_mean_def sum_list_nonneg)

lemma solve_nonneg:
  assumes ok: "batch_ok p S"
  shows "0 \<le> solve lsq p S"
proof -
  let ?po = "payoff (backward lsq p S)"
  have b: "backward lsq p S = backward_upto lsq p S (nat (nt p) - 1)"
    by (simp add: backward_upto_all)
  have len: "length ?po = nat (N p)"
    unfolding b using backward_upto_lengths [OF ok order_refl, of lsq] by simp
  have "\<forall>x\<in>set (discount p ?po). 0 \<le> x"
  proof
    fix x assume "x \<in> set (discount p ?po)"
    then obtain y where y: "y \<in> set ?po" and x: "x = exp (- r p * dt p) * y"
      by (auto simp: discount_def)
    from y obtain j where j: "j < nat (N p)" and yj: "y = ?po ! j"
      using len by (auto simp: in_set_conv_nth)
    have "0 \<le> y"
      unfolding yj b by (rule payoff_nonneg [OF ok j])
    then show "0 \<le> x" unfolding x by simp
  qed
  then show ?thesis
    unfolding solve_def by (rule np_mean_nonneg)
qed

lemma price_of_nonneg:
  assumes "0 \<le> N p" and "0 \<le> nt p"
  shows "0 \<le> price_of lsq p g"
proof -
  obtain S where "batch_ok p S" "repetition lsq p g = (Inr (solve lsq p S), rep_rng p g 1)"
    using repetition_success [OF assms, of g lsq] by blast
  then show ?thesis
    using solve_nonneg [of p S lsq] by (simp add: price_of_def)
qed

subsection \<open>Concrete runs\<close>






lemma upt_1_2: "[Suc 0 ..< 2] = [Suc 0]"
  by (simp add: numeral_2_eq_2)

lemma replicate_2: "replicate 2 x = [x, x]"
  by (simp add: numeral_2_eq_2)




lemma two_rep_growth: "growth two_rep_params z = exp (z - 1 / 2)"
  by (simp add: growth_def two_rep_params_def)

lemma two_rep_simulate:
  "simulate two_rep_params g =
     (Inr [[1], [exp (draws g (pos g) - 1 / 2)]], g\<lparr>pos := pos g + 1\<rparr>)"
proof -
  have "nt two_rep_params = 1" "N two_rep_params = 1" "S0 two_rep_params = 1"
    by (simp_all add: two_rep_params_def)
  then show ?thesis
    by (simp add: simulate_def upt_1_2 replicate_2 path_step_def normal_def two_rep_growth)
qed

lemma two_rep_solve:
  "solve lsq two_rep_params [[1], [s]] = max (2 - s) 0"
proof -
  have "nt two_rep_params = 1" "N two_rep_params = 1" "K two_rep_params = 2"
    "r two_rep_params = 0"
    by (simp_all add: two_rep_params_def)
  then show ?thesis
    by (simp add: solve_def backward_def range_down_def init_state_def Let_def discount_def
        np_mean_def)
qed

lemma two_rep_repetition:
  "repetition lsq two_rep_params g =
     (Inr (max (2 - exp (draws g (pos g) - 1 / 2)) 0), g\<lparr>pos := pos g + 1\<rparr>)"
  by (simp add: repetition_def two_rep_simulate two_rep_solve)

lemma two_rep_first:
  "repetition lstsq_intercept two_rep_params two_rep_rng = (Inr 1, two_rep_rng\<lparr>pos := 1\<rparr>)"
  by (simp add: two_rep_repetition) (simp add: two_rep_rng_def)

lemma two_rep_second:
  "repetition lstsq_intercept two_rep_params (two_rep_rng\<lparr>pos := 1\<rparr>) =
     (Inr 0, two_rep_rng\<lparr>pos := 2\<rparr>)"
  by (simp add: two_rep_repetition) (simp add: two_rep_rng_def)

lemma sqrt_quarter: "sqrt (1 / 4) = 1 / 2"
  by (rule real_sqrt_unique) (simp_all add: power2_eq_square)

lemma two_rep_run:
  "run lstsq_intercept two_rep_params two_rep_rng = (Inr (1 / 2, 1 / 2), two_rep_rng\<lparr>pos := 2\<rparr>)"
proof -
  have R2: "R two_rep_params = 2" by (simp add: two_rep_params_def)
  have u: "[0 ..< 2] = [0, Suc 0]" by (simp add: numeral_2_eq_2)
  have loop: "rep_loop lstsq_intercept two_rep_params [0, Suc 0] [0, 0] two_rep_rng =
      (Inr [1, 0], two_rep_rng\<lparr>pos := 2\<rparr>)"
    using two_rep_first two_rep_second by simp
  have m: "np_mean [1, 0] = 1 / 2" by (simp add: np_mean_def)
  have s: "np_std [1, 0] = 1 / 2"
    by (simp add: np_std_def m) (simp add: np_mean_def power2_eq_square sqrt_quarter)
  show ?thesis
    by (simp add: run_def R2 u replicate_2 loop m s del: rep_loop.simps)
qed

lemma upt_0_2: "[0 ..< 2] = [0, Suc 0]"
  by (simp add: numeral_2_eq_2)

lemma demo_values:
  "r demo_params = 0" "K demo_params = 1" "dt demo_params = 1" "nat (nt demo_params) = 2"
  "nat (N demo_params) = 2"
  by (simp_all add: demo_params_def)

lemma demo_init:
  "backward_upto lsq demo_params [c0, c1, [a, b]] 0 =
     \<lparr>intrinsic = [max (1 - a) 0, max (1 - b) 0], payoff = [max (1 - a) 0, max (1 - b) 0],
      exec_t = [2, 2], betas = [[0, 0, 0], [0, 0, 0]]\<rparr>"
  by (simp add: backward_upto_0 init_state_def Let_def demo_values replicate_2)

lemma atm_fitted:
  "fitted lstsq_intercept demo_params (atm_batch ! 1)
     (payoff (backward_upto lstsq_intercept demo_params atm_batch 0)) 0 = 1 / 2"
proof -
  have itm: "itm_paths demo_params [1 / 2, 1] = [0]"
    by (simp add: itm_paths_def demo_values upt_0_2)
  have po: "payoff (backward_upto lstsq_intercept demo_params atm_batch 0) = [1 / 2, 0]"
    unfolding atm_batch_def demo_init by simp
  have col: "atm_batch ! 1 = [1 / 2, 1]" by (simp add: atm_batch_def)
  show ?thesis
    unfolding po col fitted_def itm
    by (simp add: design_def take_idx_def discount_def demo_values lstsq_intercept_def dot_def)
qed

lemma exercise_upto_1:
  "backward_upto lstsq_intercept demo_params exercise_batch 1 =
     \<lparr>intrinsic = [3 / 4, 0], payoff = [3 / 4, 0], exec_t = [1, 2],
      betas = [[0, 0, 0], [1 / 2, 0, 0]]\<rparr>"
proof -
  have k: "0 < nat (nt demo_params) - 1" by (simp add: demo_values)
  have itm: "itm_paths demo_params [1 / 4, 2] = [0]"
    by (simp add: itm_paths_def demo_values upt_0_2)
  have col: "exercise_batch ! Suc 0 = [1 / 4, 2]" by (simp add: exercise_batch_def)
  have init: "backward_upto lstsq_intercept demo_params exercise_batch 0 =
     \<lparr>intrinsic = [1 / 2, 0], payoff = [1 / 2, 0], exec_t = [2, 2],
      betas = [[0, 0, 0], [0, 0, 0]]\<rparr>"
    unfolding exercise_batch_def demo_init by simp
  have "backward_upto lstsq_intercept demo_params exercise_batch (Suc 0) =
      step lstsq_intercept demo_params exercise_batch (Suc 0)
        (backward_upto lstsq_intercept demo_params exercise_batch 0)"
    using backward_upto_Suc [OF k, of lstsq_intercept exercise_batch] by (simp add: demo_values)
  also have "\<dots> = \<lparr>intrinsic = [3 / 4, 0], payoff = [3 / 4, 0], exec_t = [1, 2],
      betas = [[0, 0, 0], [1 / 2, 0, 0]]\<rparr>"
    unfolding init
    by (simp add: step_def Let_def itm col design_def take_idx_def put_idx_def np_where_def
        discount_def demo_values lstsq_intercept_def dot_def)
  finally show ?thesis by simp
qed

subsection \<open>Constant paths\<close>

lemma sq_residual_Cons:
  "sq_residual (x # X) (yi # y) b = (dot x b - yi)\<^sup>2 + sq_residual X y b"
  by (simp add: sq_residual_def)

lemma sq_residual_nonneg: "0 \<le> sq_residual X y b"
  unfolding sq_residual_def by (rule sum_list_nonneg) auto

lemma sq_residual_zero:
  "length X = length y \<Longrightarrow> sq_residual X y b = 0 \<Longrightarrow> map (\<lambda>row. dot row b) X = y"
proof (induction X y rule: list_induct2)
  case Nil
  then show ?case by simp
next
  case (Cons x X yi y)
  have "(dot x b - yi)\<^sup>2 + sq_residual X y b = 0"
    using Cons.prems by (simp only: sq_residual_Cons)
  moreover have "0 \<le> (dot x b - yi)\<^sup>2" by simp
  ultimately have "(dot x b - yi)\<^sup>2 = 0" and "sq_residual X y b = 0"
    using sq_residual_nonneg [of X y b] by linarith+
  then show ?case using Cons.IH by simp
qed

lemma sq_residual_intercept:
  "\<forall>row\<in>set X. \<exists>s. row = [1, s, s\<^sup>2] \<Longrightarrow>
   sq_residual X (replicate (length X) c) [c, 0, 0] = 0"
proof (induction X)
  case Nil
  then show ?case by (simp add: sq_residual_def)
next
  case (Cons x X)
  then obtain s where "x = [1, s, s\<^sup>2]" by auto
  then have "dot x [c, 0, 0] = c" by (simp add: dot_def)
  then show ?case using Cons by (simp add: sq_residual_Cons)
qed

lemma least_squares_fits_constants:
  assumes "least_squares lsq"
  shows "fits_constants lsq"
  unfolding fits_constants_def
proof (intro allI impI)
  fix X :: "real list list" and c :: real
  assume rows: "\<forall>row\<in>set X. \<exists>s. row = [1, s, s\<^sup>2]"
  let ?y = "replicate (length X) c"
  have "sq_residual X ?y (lsq X ?y) \<le> sq_residual X ?y [c, 0, 0]"
    using assms unfolding least_squares_def by blast
  then have "sq_residual X ?y (lsq X ?y) \<le> 0"
    by (simp only: sq_residual_intercept [OF rows])
  then have "sq_residual X ?y (lsq X ?y) = 0"
    using sq_residual_nonneg [of X ?y "lsq X ?y"] by linarith
  then show "map (\<lambda>row. dot row (lsq X ?y)) X = ?y"
    by (intro sq_residual_zero) simp_all
qed

lemma fits_constants_intercept: "fits_constants lstsq_intercept"
  unfolding fits_constants_def
proof (intro allI impI)
  fix X :: "real list list" and c :: real
  assume rows: "\<forall>row\<in>set X. \<exists>s. row = [1, s, s\<^sup>2]"
  show "map (\<lambda>row. dot row (lstsq_intercept X (replicate (length X) c))) X = replicate (length X) c"
  proof (cases X)
    case Nil
    then show ?thesis by simp
  next
    case (Cons x xs)
    then have b: "lstsq_intercept X (replicate (length X) c) = [c, 0, 0]"
      by (simp add: lstsq_intercept_def)
    have "\<And>row. row \<in> set X \<Longrightarrow> dot row [c, 0, 0] = c"
      using rows by (auto simp: dot_def)
    then have "map (\<lambda>row. dot row [c, 0, 0]) X = map (\<lambda>row. c) X"
      by (intro map_cong) simp_all
    then show ?thesis
      unfolding b by (simp add: map_replicate_const)
  qed
qed

lemma growth_flat: "sigma p = 0 \<Longrightarrow> r p = 0 \<Longrightarrow> growth p z = 1"
  by (simp add: growth_def)

lemma simulate_flat:
  assumes sg: "sigma p = 0" and r0: "r p = 0" and n0: "0 \<le> N p" and t0: "0 \<le> nt p"
  shows "\<exists>S. batch_ok p S \<and> simulate p g = (Inr S, rep_rng p g 1) \<and>
           (\<forall>i\<le>nat (nt p). S ! i = replicate (nat (N p)) (S0 p))"
proof -
  obtain S where S: "simulate p g = (Inr S, g\<lparr>pos := pos g + nat (nt p) * nat (N p)\<rparr>)"
    "batch_ok p S" "S ! 0 = replicate (nat (N p)) (S0 p)"
    "\<forall>i j. 1 \<le> i \<and> i \<le> nat (nt p) \<and> j < nat (N p) \<longrightarrow>
              S ! i ! j = S ! (i - 1) ! j * growth p (draw_at p g i j)"
    using simulate_success [OF n0 t0, of g] by blast
  have rec: "\<And>i j. 1 \<le> i \<Longrightarrow> i \<le> nat (nt p) \<Longrightarrow> j < nat (N p) \<Longrightarrow> S ! i ! j = S ! (i - 1) ! j"
    using S(4) by (simp add: growth_flat [OF sg r0])
  have "i \<le> nat (nt p) \<Longrightarrow> S ! i = replicate (nat (N p)) (S0 p)" for i
  proof (induction i)
    case 0
    show ?case by (rule S(3))
  next
    case (Suc i)
    then have IH: "S ! i = replicate (nat (N p)) (S0 p)" by simp
    show ?case
    proof (rule nth_equalityI)
      show "length (S ! Suc i) = length (replicate (nat (N p)) (S0 p))"
        using col_length [OF S(2) Suc.prems] by simp
    next
      fix j assume "j < length (S ! Suc i)"
      then have j: "j < nat (N p)" using col_length [OF S(2) Suc.prems] by simp
      have "S ! Suc i ! j = S ! i ! j"
        using rec [of "Suc i" j] Suc.prems j by simp
      then show "S ! Suc i ! j = replicate (nat (N p)) (S0 p) ! j"
        using IH j by simp
    qed
  qed
  then show ?thesis
    using S(1,2) by (intro exI [of _ S]) (simp add: rep_rng_def)
qed

lemma list_eq_replicate:
  "length xs = n \<Longrightarrow> (\<And>j. j < n \<Longrightarrow> xs ! j = c) \<Longrightarrow> xs = replicate n c"
  by (rule nth_equalityI) simp_all

lemma take_idx_replicate: "take_idx (replicate n x) [0 ..< n] = replicate n x"
  using map_nth [of "replicate n x"] by (simp add: take_idx_def)

lemma flat_payoff_nth:
  assumes ok: "batch_ok p S" and flat: "\<forall>i\<le>nat (nt p). S ! i = replicate (nat (N p)) s0"
    and r0: "r p = 0" and k: "k \<le> nat (nt p) - 1" and j: "j < nat (N p)"
  shows "payoff (backward_upto lsq p S k) ! j = max (K p - s0) 0"
proof -
  let ?e = "exec_t (backward_upto lsq p S k) ! j"
  have "?e \<le> nat (nt p)"
    using backward_upto_exec_t_bounds [OF ok k j, of lsq] by simp
  then have "S ! ?e ! j = s0" using flat j by simp
  then show ?thesis
    using payoff_formula [OF ok k j, of lsq] r0 by simp
qed

lemma flat_intrinsic_nth:
  assumes ok: "batch_ok p S" and flat: "\<forall>i\<le>nat (nt p). S ! i = replicate (nat (N p)) s0"
    and k: "k \<le> nat (nt p) - 1" and j: "j < nat (N p)"
  shows "intrinsic (backward_upto lsq p S k) ! j = max (K p - s0) 0"
  using k
proof (induction k)
  case 0
  have "last S = replicate (nat (N p)) s0"
    using batch_ok_last [OF ok] flat by simp
  then show ?case
    using j by (simp add: backward_upto_0 init_state_def Let_def)
next
  case (Suc k)
  then have lt: "k < nat (nt p) - 1" by simp
  have s: "S ! (nat (nt p) - 1 - k) ! j = s0" using flat j by simp
  show ?case
    unfolding loop_step_facts(3) [OF ok lt j, of lsq] s
    using Suc by simp
qed

lemma flat_fitted:
  assumes ok: "batch_ok p S" and flat: "\<forall>i\<le>nat (nt p). S ! i = replicate (nat (N p)) s0"
    and r0: "r p = 0" and itm: "s0 < K p" and fit: "fits_constants lsq"
    and k: "k < nat (nt p) - 1" and j: "j < nat (N p)"
  shows "fitted lsq p (S ! (nat (nt p) - 1 - k)) (payoff (backward_upto lsq p S k)) j = K p - s0"
proof -
  let ?n = "nat (N p)"
  let ?col = "S ! (nat (nt p) - 1 - k)"
  let ?po = "payoff (backward_upto lsq p S k)"
  let ?X = "replicate ?n [1, s0, s0\<^sup>2]"
  have col: "?col = replicate ?n s0" using flat by simp
  have len: "length ?po = ?n"
    using backward_upto_lengths [OF ok, of k lsq] k by simp
  have po: "?po = replicate ?n (K p - s0)"
  proof (rule list_eq_replicate [OF len])
    fix i assume "i < ?n"
    then show "?po ! i = K p - s0"
      using flat_payoff_nth [OF ok flat r0, of k i lsq] k itm by simp
  qed
  have idx: "itm_paths p (replicate ?n s0) = [0 ..< ?n]"
    using itm by (simp add: itm_paths_def)
  have X: "design (replicate ?n s0) [0 ..< ?n] = ?X"
    by (simp add: design_def take_idx_replicate)
  have y: "take_idx (discount p (replicate ?n (K p - s0))) [0 ..< ?n] = replicate (length ?X) (K p - s0)"
    using r0 by (simp add: discount_def take_idx_replicate)
  have "\<forall>row\<in>set ?X. \<exists>s. row = [1, s, s\<^sup>2]" by auto
  then have "map (\<lambda>row. dot row (lsq ?X (replicate (length ?X) (K p - s0)))) ?X =
      replicate (length ?X) (K p - s0)"
    using fit unfolding fits_constants_def by blast
  then have "map (\<lambda>row. dot row (lsq ?X (replicate (length ?X) (K p - s0)))) ?X ! j =
      replicate (length ?X) (K p - s0) ! j"
    by (rule arg_cong [where f = "\<lambda>xs. xs ! j"])
  then have "dot [1, s0, s0\<^sup>2] (lsq ?X (replicate (length ?X) (K p - s0))) = K p - s0"
    using j by simp
  then show ?thesis
    unfolding fitted_def col po idx X y using j by simp
qed

lemma flat_exec_t_nth:
  assumes ok: "batch_ok p S" and flat: "\<forall>i\<le>nat (nt p). S ! i = replicate (nat (N p)) s0"
    and r0: "r p = 0" and itm: "s0 < K p" and fit: "fits_constants lsq"
    and k: "k \<le> nat (nt p) - 1" and j: "j < nat (N p)"
  shows "exec_t (backward_upto lsq p S k) ! j = nat (nt p)"
  using k
proof (induction k)
  case 0
  then show ?case using j by (simp add: backward_upto_0 init_state_def Let_def)
next
  case (Suc k)
  then have lt: "k < nat (nt p) - 1" by simp
  have s: "S ! (nat (nt p) - 1 - k) ! j = s0" using flat j by simp
  have f: "fitted lsq p (S ! (nat (nt p) - 1 - k)) (payoff (backward_upto lsq p S k)) j = K p - s0"
    by (rule flat_fitted [OF ok flat r0 itm fit lt j])
  show ?case
    unfolding loop_step_facts(4) [OF ok lt j, of lsq] f s
    using Suc itm by simp
qed

lemma np_mean_replicate: "0 < n \<Longrightarrow> np_mean (replicate n c) = c"
  by (simp add: np_mean_def sum_list_replicate)

lemma flat_all_k:
  assumes ok: "batch_ok p S"
    and nth: "\<And>k j. k \<le> nat (nt p) - 1 \<Longrightarrow> j < nat (N p) \<Longrightarrow> f (backward_upto lsq p S k) ! j = c"
    and len: "\<And>k. k \<le> nat (nt p) - 1 \<Longrightarrow> length (f (backward_upto lsq p S k)) = nat (N p)"
  shows "f (backward_upto lsq p S k) = replicate (nat (N p)) c"
proof -
  define m where "m = min k (nat (nt p) - 1)"
  have m: "m \<le> nat (nt p) - 1" by (simp add: m_def)
  have "f (backward_upto lsq p S m) = replicate (nat (N p)) c"
    by (rule list_eq_replicate [OF len [OF m]]) (rule nth [OF m])
  then show ?thesis
    unfolding m_def by (simp only: backward_upto_min [symmetric])
qed

subsection \<open>The cell with a raising \<open>lstsq\<close>\<close>


lemma step_raising_Inr:
  "step_raising np p S t st = Inr st' \<Longrightarrow> st' = step (returned np) p S t st"
  by (auto simp: step_raising_def Let_def returned_def step_def split: option.splits)



lemma backward_raising_Inr:
  "backward_raising np p S ts st = Inr st' \<Longrightarrow> st' = fold (step (returned np) p S) ts st"
proof (induction ts arbitrary: st)
  case Nil
  then show ?case by simp
next
  case (Cons t ts)
  then obtain st1 where s: "step_raising np p S t st = Inr st1"
    and r: "backward_raising np p S ts st1 = Inr st'"
    by (auto split: sum.splits)
  from step_raising_Inr [OF s] Cons.IH [OF r] show ?case by simp
qed



lemma solve_raising_Inr: "solve_raising np p S = Inr x \<Longrightarrow> x = solve (returned np) p S"
  by (auto simp: solve_raising_def solve_def backward_def split: sum.splits
      dest: backward_raising_Inr)




lemma repetition_raising_Inr:
  "repetition_raising np p g = (Inr x, g') \<Longrightarrow> repetition (returned np) p g = (Inr x, g')"
  by (auto simp: repetition_raising_def repetition_def split: prod.splits sum.splits
      dest: solve_raising_Inr)


lemma rep_loop_raising_Inr:
  "rep_loop_raising np p ks pe g = (Inr pe', g') \<Longrightarrow>
   rep_loop (returned np) p ks pe g = (Inr pe', g')"
proof (induction ks arbitrary: pe g)
  case Nil
  then show ?case by simp
next
  case (Cons k ks)
  then obtain x g1 where s: "repetition_raising np p g = (Inr x, g1)"
    and r: "rep_loop_raising np p ks (pe[k := x]) g1 = (Inr pe', g')"
    by (auto split: prod.splits sum.splits)
  from repetition_raising_Inr [OF s] Cons.IH [OF r] show ?case by simp
qed


lemma run_raising_Inr:
  "run_raising np p g = (Inr res, g') \<Longrightarrow> run (returned np) p g = (Inr res, g')"
  by (auto simp: run_raising_def run_def split: if_splits prod.splits sum.splits
      dest: rep_loop_raising_Inr)









section \<open>The claims\<close>

subsection \<open>Claim C1\<close>

text \<open>C1. With \<open>sigma = 0\<close>, \<open>r = 0\<close>, \<open>dt \<ge> 0\<close>, \<open>N \<ge> 1\<close> and \<open>nt \<ge> 0\<close>, a repetition
  started in any generator state simulates a table whose every column is constant at
  \<open>S0\<close>; every path's payoff is \<open>max(K - S0, 0)\<close> after any number of iterations of the
  backward loop, and the price estimate is \<open>max(K - S0, 0)\<close>, whatever the regression
  returns. If \<open>S0 < K\<close> and the regression reproduces constant targets, the fitted
  continuation value equals the recomputed intrinsic value at every step and no exercise
  time ever changes; if \<open>S0 \<ge> K\<close> the intrinsic value is 0 on every path throughout.\<close>

theorem zero_vol_zero_rate:
  assumes sg: "sigma p = 0" and r0: "r p = 0" and d0: "0 \<le> dt p"
    and n1: "1 \<le> N p" and t0: "0 \<le> nt p"
  shows "\<exists>S. simulate p g = (Inr S, rep_rng p g 1) \<and>
           (\<forall>i\<le>nat (nt p). S ! i = replicate (nat (N p)) (S0 p)) \<and>
           (\<forall>k. payoff (backward_upto lsq p S k) = replicate (nat (N p)) (max (K p - S0 p) 0)) \<and>
           solve lsq p S = max (K p - S0 p) 0 \<and>
           repetition lsq p g = (Inr (max (K p - S0 p) 0), rep_rng p g 1) \<and>
           (S0 p < K p \<and> fits_constants lsq \<longrightarrow>
              (\<forall>k j. k < nat (nt p) - 1 \<and> j < nat (N p) \<longrightarrow>
                 fitted lsq p (S ! (nat (nt p) - 1 - k)) (payoff (backward_upto lsq p S k)) j =
                   intrinsic (backward_upto lsq p S (Suc k)) ! j) \<and>
              (\<forall>k. exec_t (backward_upto lsq p S k) = replicate (nat (N p)) (nat (nt p)))) \<and>
           (K p \<le> S0 p \<longrightarrow>
              (\<forall>k. intrinsic (backward_upto lsq p S k) = replicate (nat (N p)) 0))"
proof -
  let ?n = "nat (N p)"
  let ?c = "max (K p - S0 p) 0"
  have n0: "0 \<le> N p" using n1 by simp
  obtain S where ok: "batch_ok p S" and sim: "simulate p g = (Inr S, rep_rng p g 1)"
    and flat: "\<forall>i\<le>nat (nt p). S ! i = replicate ?n (S0 p)"
    using simulate_flat [OF sg r0 n0 t0, of g] by blast
  have L: "\<And>k. k \<le> nat (nt p) - 1 \<Longrightarrow>
      length (intrinsic (backward_upto lsq p S k)) = ?n \<and>
      length (payoff (backward_upto lsq p S k)) = ?n \<and>
      length (exec_t (backward_upto lsq p S k)) = ?n"
    by (rule backward_upto_lengths [OF ok])
  have pay: "payoff (backward_upto lsq p S k) = replicate ?n ?c" for k
    by (rule flat_all_k [OF ok]) (simp_all add: flat_payoff_nth [OF ok flat r0] L)
  have intr: "intrinsic (backward_upto lsq p S k) = replicate ?n ?c" for k
    by (rule flat_all_k [OF ok]) (simp_all add: flat_intrinsic_nth [OF ok flat] L)
  have "payoff (backward lsq p S) = replicate ?n ?c"
    using pay [of "nat (nt p) - 1"] by (simp add: backward_upto_all)
  then have price: "solve lsq p S = ?c"
    using n1 r0 by (simp add: solve_def discount_def np_mean_replicate)
  have rep: "repetition lsq p g = (Inr ?c, rep_rng p g 1)"
    by (simp add: repetition_def sim price)
  have fit: "S0 p < K p \<and> fits_constants lsq \<longrightarrow>
      (\<forall>k j. k < nat (nt p) - 1 \<and> j < ?n \<longrightarrow>
         fitted lsq p (S ! (nat (nt p) - 1 - k)) (payoff (backward_upto lsq p S k)) j =
           intrinsic (backward_upto lsq p S (Suc k)) ! j) \<and>
      (\<forall>k. exec_t (backward_upto lsq p S k) = replicate ?n (nat (nt p)))"
  proof
    assume a: "S0 p < K p \<and> fits_constants lsq"
    then have itm: "S0 p < K p" and fc: "fits_constants lsq" by simp_all
    have ex: "exec_t (backward_upto lsq p S k) = replicate ?n (nat (nt p))" for k
      by (rule flat_all_k [OF ok]) (simp_all add: flat_exec_t_nth [OF ok flat r0 itm fc] L)
    have "fitted lsq p (S ! (nat (nt p) - 1 - k)) (payoff (backward_upto lsq p S k)) j =
           intrinsic (backward_upto lsq p S (Suc k)) ! j"
      if "k < nat (nt p) - 1" "j < ?n" for k j
      using flat_fitted [OF ok flat r0 itm fc that] intr [of "Suc k"] that(2) itm by simp
    with ex show "(\<forall>k j. k < nat (nt p) - 1 \<and> j < ?n \<longrightarrow>
         fitted lsq p (S ! (nat (nt p) - 1 - k)) (payoff (backward_upto lsq p S k)) j =
           intrinsic (backward_upto lsq p S (Suc k)) ! j) \<and>
      (\<forall>k. exec_t (backward_upto lsq p S k) = replicate ?n (nat (nt p)))"
      by blast
  qed
  have otm: "K p \<le> S0 p \<longrightarrow> (\<forall>k. intrinsic (backward_upto lsq p S k) = replicate ?n 0)"
  proof
    assume "K p \<le> S0 p"
    then have "?c = 0" by simp
    then show "\<forall>k. intrinsic (backward_upto lsq p S k) = replicate ?n 0"
      using intr by simp
  qed
  show ?thesis
    using sim flat pay price rep fit otm by (intro exI [of _ S]) blast
qed

theorem zero_vol_zero_rate_witness:
  "sigma flat_params = 0 \<and> r flat_params = 0 \<and> 0 \<le> dt flat_params \<and> 1 \<le> N flat_params \<and>
   0 \<le> nt flat_params \<and> S0 flat_params < K flat_params \<and> fits_constants lstsq_intercept \<and>
   repetition lstsq_intercept flat_params demo_rng = (Inr (1 / 2), rep_rng flat_params demo_rng 1) \<and>
   (\<exists>S. simulate flat_params demo_rng = (Inr S, rep_rng flat_params demo_rng 1) \<and>
        exec_t (backward_upto lstsq_intercept flat_params S 1) = [2, 2]) \<and>
   sigma flat_otm_params = 0 \<and> r flat_otm_params = 0 \<and> 0 \<le> dt flat_otm_params \<and>
   1 \<le> N flat_otm_params \<and> 0 \<le> nt flat_otm_params \<and> K flat_otm_params \<le> S0 flat_otm_params \<and>
   repetition lstsq_intercept flat_otm_params demo_rng = (Inr 0, rep_rng flat_otm_params demo_rng 1) \<and>
   (\<exists>S. simulate flat_otm_params demo_rng = (Inr S, rep_rng flat_otm_params demo_rng 1) \<and>
        intrinsic (backward_upto lstsq_intercept flat_otm_params S 1) = [0, 0])"
proof -
  have h: "sigma flat_params = 0" "r flat_params = 0" "0 \<le> dt flat_params" "1 \<le> N flat_params"
    "0 \<le> nt flat_params"
    by (simp_all add: flat_params_def)
  have itm: "S0 flat_params < K flat_params" by (simp add: flat_params_def)
  have h': "sigma flat_otm_params = 0" "r flat_otm_params = 0" "0 \<le> dt flat_otm_params"
    "1 \<le> N flat_otm_params" "0 \<le> nt flat_otm_params"
    by (simp_all add: flat_otm_params_def)
  have otm: "K flat_otm_params \<le> S0 flat_otm_params" by (simp add: flat_otm_params_def)
  have v: "max (K flat_params - S0 flat_params) 0 = 1 / 2" "nat (N flat_params) = 2"
    "nat (nt flat_params) = 2"
    by (simp_all add: flat_params_def)
  have v': "max (K flat_otm_params - S0 flat_otm_params) 0 = 0" "nat (N flat_otm_params) = 2"
    by (simp_all add: flat_otm_params_def)
  note fc = fits_constants_intercept
  from zero_vol_zero_rate [OF h, of demo_rng lstsq_intercept] itm fc
  have a: "repetition lstsq_intercept flat_params demo_rng = (Inr (1 / 2), rep_rng flat_params demo_rng 1) \<and>
    (\<exists>S. simulate flat_params demo_rng = (Inr S, rep_rng flat_params demo_rng 1) \<and>
        exec_t (backward_upto lstsq_intercept flat_params S 1) = [2, 2])"
    unfolding v by (auto simp: replicate_2)
  from zero_vol_zero_rate [OF h', of demo_rng lstsq_intercept] otm
  have b: "repetition lstsq_intercept flat_otm_params demo_rng =
      (Inr 0, rep_rng flat_otm_params demo_rng 1) \<and>
    (\<exists>S. simulate flat_otm_params demo_rng = (Inr S, rep_rng flat_otm_params demo_rng 1) \<and>
        intrinsic (backward_upto lstsq_intercept flat_otm_params S 1) = [0, 0])"
    unfolding v' by (auto simp: replicate_2)
  from h itm fc a h' otm b show ?thesis by blast
qed

subsection \<open>Claim C2\<close>

text \<open>C2. On a table of the simulated shape with \<open>nt \<ge> 1\<close>, every path's exercise time
  starts at \<open>nt\<close>, lies in \<open>{1, ..., nt}\<close> after any number \<open>k\<close> of iterations of the
  backward loop and at its end, and one iteration either leaves it unchanged or
  replaces it by the current loop index \<open>nt - 1 - k \<ge> 1\<close>, which is strictly smaller than
  the value it replaces.\<close>

theorem exec_t_range_and_monotone:
  assumes ok: "batch_ok p S" and nt1: "1 \<le> nt p" and j: "j < nat (N p)"
  shows "exec_t (backward_upto lsq p S 0) ! j = nat (nt p) \<and>
         (1 \<le> exec_t (backward_upto lsq p S k) ! j \<and>
          exec_t (backward_upto lsq p S k) ! j \<le> nat (nt p)) \<and>
         (1 \<le> exec_t (backward lsq p S) ! j \<and> exec_t (backward lsq p S) ! j \<le> nat (nt p)) \<and>
         (exec_t (backward_upto lsq p S (Suc k)) ! j = exec_t (backward_upto lsq p S k) ! j \<or>
          (k < nat (nt p) - 1 \<and>
           exec_t (backward_upto lsq p S (Suc k)) ! j = nat (nt p) - 1 - k \<and>
           1 \<le> nat (nt p) - 1 - k \<and>
           nat (nt p) - 1 - k < exec_t (backward_upto lsq p S k) ! j))"
proof -
  define n where "n = nat (nt p)"
  have n1: "1 \<le> n" using nt1 by (simp add: n_def)
  have bounds: "n - m \<le> exec_t (backward_upto lsq p S m) ! j \<and>
      exec_t (backward_upto lsq p S m) ! j \<le> n" if "m \<le> n - 1" for m
    using backward_upto_exec_t_bounds [OF ok _ j, of m lsq] that by (simp add: n_def)
  have range: "1 \<le> exec_t (backward_upto lsq p S m) ! j \<and>
      exec_t (backward_upto lsq p S m) ! j \<le> n" for m
  proof -
    have "min m (n - 1) \<le> n - 1" by simp
    from bounds [OF this] n1 have "1 \<le> exec_t (backward_upto lsq p S (min m (n - 1))) ! j \<and>
      exec_t (backward_upto lsq p S (min m (n - 1))) ! j \<le> n"
      by (auto simp: min_def)
    then show ?thesis
      using backward_upto_min [of lsq p S m] by (simp add: n_def)
  qed
  have start: "exec_t (backward_upto lsq p S 0) ! j = n"
    using j by (simp add: backward_upto_0 init_state_def Let_def n_def)
  have final: "1 \<le> exec_t (backward lsq p S) ! j \<and> exec_t (backward lsq p S) ! j \<le> n"
    using range [of "n - 1"] backward_upto_all [of p "n - 1" lsq S] by (simp add: n_def)
  have move: "exec_t (backward_upto lsq p S (Suc k)) ! j = exec_t (backward_upto lsq p S k) ! j \<or>
          (k < n - 1 \<and> exec_t (backward_upto lsq p S (Suc k)) ! j = n - 1 - k \<and>
           1 \<le> n - 1 - k \<and> n - 1 - k < exec_t (backward_upto lsq p S k) ! j)"
  proof (cases "k < n - 1")
    case True
    let ?st = "backward_upto lsq p S k"
    have lt: "k < nat (nt p) - 1" using True by (simp add: n_def)
    have L: "length (intrinsic ?st) = nat (N p)" "length (exec_t ?st) = nat (N p)"
      using backward_upto_lengths [OF ok, of k lsq] lt by simp_all
    have t: "nat (nt p) - 1 - k \<le> nat (nt p)" by simp
    have lo: "n - k \<le> exec_t ?st ! j" using bounds [of k] True by simp
    have "exec_t (backward_upto lsq p S (Suc k)) ! j = exec_t ?st ! j \<or>
          exec_t (backward_upto lsq p S (Suc k)) ! j = n - 1 - k"
      unfolding backward_upto_Suc [OF lt] step_exec_t_cases [OF ok t L]
      by (simp add: n_def)
    moreover have "1 \<le> n - 1 - k" "n - 1 - k < exec_t ?st ! j"
      using True lo by linarith+
    ultimately show ?thesis using True by blast
  next
    case False
    then have "backward_upto lsq p S (Suc k) = backward lsq p S"
      "backward_upto lsq p S k = backward lsq p S"
      by (simp_all add: backward_upto_all n_def)
    then show ?thesis by simp
  qed
  show ?thesis
    using start range [of k] final move by (simp add: n_def)
qed

theorem exec_t_range_and_monotone_witness:
  "batch_ok demo_params demo_batch \<and> 1 \<le> nt demo_params \<and> 0 < nat (N demo_params) \<and>
   1 \<le> exec_t (backward lstsq_intercept demo_params demo_batch) ! 0 \<and>
   exec_t (backward lstsq_intercept demo_params demo_batch) ! 0 \<le> 2"
proof -
  have h1: "batch_ok demo_params demo_batch"
    by (simp add: batch_ok_def demo_params_def demo_batch_def)
  have h2: "1 \<le> nt demo_params" by (simp add: demo_params_def)
  have h3: "0 < nat (N demo_params)" by (simp add: demo_params_def)
  show ?thesis
    using exec_t_range_and_monotone [OF h1 h2 h3, of lstsq_intercept 0] h1 h2 h3
    by (simp add: demo_params_def)
qed

subsection \<open>Claim C3\<close>

text \<open>C3, as stated, fails: in a run of two repetitions whose price estimates are 1 and
  0 the cell reports the standard deviation 1/2, while the sample standard deviation
  (divisor \<open>R - 1\<close>) of 1 and 0 is \<open>sqrt(1/2)\<close>.\<close>

theorem sample_std_counterexample:
  "repetition lstsq_intercept two_rep_params two_rep_rng = (Inr 1, two_rep_rng\<lparr>pos := 1\<rparr>) \<and>
   repetition lstsq_intercept two_rep_params (two_rep_rng\<lparr>pos := 1\<rparr>) =
     (Inr 0, two_rep_rng\<lparr>pos := 2\<rparr>) \<and>
   run lstsq_intercept two_rep_params two_rep_rng = (Inr (1 / 2, 1 / 2), two_rep_rng\<lparr>pos := 2\<rparr>) \<and>
   spec_sample_std [1, 0] \<noteq> 1 / 2"
proof -
  have "spec_sample_std [1, 0] = sqrt (1 / 2)"
    by (simp add: spec_sample_std_def np_mean_def power2_eq_square)
  moreover have "sqrt (1 / 2) \<noteq> (1 / 2 :: real)"
  proof
    assume a: "sqrt (1 / 2) = (1 / 2 :: real)"
    have "(sqrt (1 / 2))\<^sup>2 = (1 / 2 :: real)" by (rule real_sqrt_pow2) simp
    then have "(1 / 2 :: real)\<^sup>2 = 1 / 2" unfolding a .
    then show False by (simp add: power2_eq_square)
  qed
  ultimately show ?thesis
    using two_rep_first two_rep_second two_rep_run by simp
qed

text \<open>C3, amended. For \<open>N \<ge> 1\<close>, \<open>nt \<ge> 0\<close>, \<open>R \<ge> 1\<close> and \<open>dt \<ge> 0\<close> the run reports the mean of the
  \<open>R\<close> price estimates of its repetitions (repetition \<open>k\<close> starting where repetition
  \<open>k - 1\<close> left the generator) and their population standard deviation: the square root
  of the sum of squared deviations from the mean divided by \<open>R\<close>.\<close>

theorem run_reports_mean_and_population_std:
  assumes n1: "1 \<le> N p" and t0: "0 \<le> nt p" and r1: "1 \<le> R p" and d0: "0 \<le> dt p"
  shows "\<exists>pe. length pe = nat (R p) \<and>
           (\<forall>k<nat (R p). repetition lsq p (rep_rng p g k) = (Inr (pe ! k), rep_rng p g (Suc k))) \<and>
           run lsq p g =
             (Inr (sum_list pe / real (nat (R p)),
                   sqrt (sum_list (map (\<lambda>x. (x - sum_list pe / real (nat (R p)))\<^sup>2) pe) /
                         real (nat (R p)))),
              rep_rng p g (nat (R p)))"
proof -
  let ?pe = "map (\<lambda>i. price_of lsq p (rep_rng p g i)) [0 ..< nat (R p)]"
  have r0: "0 \<le> R p" using r1 by simp
  have n0: "0 \<le> N p" using n1 by simp
  have run: "run lsq p g = (Inr (np_mean ?pe, np_std ?pe), rep_rng p g (nat (R p)))"
    by (rule run_success [OF r0]) (simp add: n0 t0)
  have len: "length ?pe = nat (R p)" by simp
  have reps: "\<forall>k<nat (R p). repetition lsq p (rep_rng p g k) = (Inr (?pe ! k), rep_rng p g (Suc k))"
    using repetition_price [OF n0 t0, of lsq] by (simp add: rep_rng_add)
  have m: "np_mean ?pe = sum_list ?pe / real (nat (R p))"
    by (simp add: np_mean_def)
  have s: "np_std ?pe =
      sqrt (sum_list (map (\<lambda>x. (x - sum_list ?pe / real (nat (R p)))\<^sup>2) ?pe) / real (nat (R p)))"
    unfolding np_std_def m by (simp add: np_mean_def comp_def)
  show ?thesis
    using len reps run [unfolded s m] by (intro exI [of _ ?pe]) blast
qed

theorem run_reports_mean_and_population_std_witness:
  "1 \<le> N demo_params \<and> 0 \<le> nt demo_params \<and> 1 \<le> R demo_params \<and> 0 \<le> dt demo_params \<and>
   (\<exists>pe. length pe = nat (R demo_params) \<and>
      run lstsq_intercept demo_params demo_rng =
        (Inr (sum_list pe / real (nat (R demo_params)),
              sqrt (sum_list (map (\<lambda>x. (x - sum_list pe / real (nat (R demo_params)))\<^sup>2) pe) /
                    real (nat (R demo_params)))),
         rep_rng demo_params demo_rng (nat (R demo_params))))"
proof -
  have h1: "1 \<le> N demo_params" by (simp add: demo_params_def)
  have h2: "0 \<le> nt demo_params" by (simp add: demo_params_def)
  have h3: "1 \<le> R demo_params" by (simp add: demo_params_def)
  have h4: "0 \<le> dt demo_params" by (simp add: demo_params_def)
  from run_reports_mean_and_population_std [OF h1 h2 h3 h4, of lstsq_intercept demo_rng]
  have "\<exists>pe. length pe = nat (R demo_params) \<and>
      run lstsq_intercept demo_params demo_rng =
        (Inr (sum_list pe / real (nat (R demo_params)),
              sqrt (sum_list (map (\<lambda>x. (x - sum_list pe / real (nat (R demo_params)))\<^sup>2) pe) /
                    real (nat (R demo_params)))),
         rep_rng demo_params demo_rng (nat (R demo_params)))"
    by blast
  with h1 h2 h3 h4 show ?thesis by blast
qed

subsection \<open>Claim C4\<close>




subsection \<open>Claim C5\<close>

text \<open>C5. For non-negative \<open>N\<close>, \<open>nt\<close> and \<open>dt\<close> the simulation returns a table of \<open>nt + 1\<close>
  columns of \<open>N\<close> entries; column 0 is \<open>S0\<close> on every path, and for every time index
  \<open>i\<close> from 1 to \<open>nt\<close> the entry of path \<open>j\<close> is its entry at \<open>i - 1\<close> times
  \<open>exp((r - 0.5 sigma^2) dt + sigma sqrt(dt) Z)\<close>, \<open>Z\<close> being the draw of that path and step
  (the \<open>((i - 1) N + j)\<close>-th draw of the repetition); \<open>N nt\<close> draws are consumed.\<close>

theorem simulate_paths:
  assumes "0 \<le> N p" and "0 \<le> nt p" and "0 \<le> dt p"
  shows "\<exists>S. simulate p g = (Inr S, g\<lparr>pos := pos g + nat (nt p) * nat (N p)\<rparr>) \<and>
           length S = nat (nt p) + 1 \<and>
           (\<forall>i\<le>nat (nt p). length (S ! i) = nat (N p)) \<and>
           (\<forall>j<nat (N p). S ! 0 ! j = S0 p) \<and>
           (\<forall>i j. 1 \<le> i \<and> i \<le> nat (nt p) \<and> j < nat (N p) \<longrightarrow>
              S ! i ! j = S ! (i - 1) ! j *
                exp ((r p - 0.5 * (sigma p)\<^sup>2) * dt p +
                     sigma p * sqrt (dt p) * draws g (pos g + (i - 1) * nat (N p) + j)))"
proof -
  obtain S where S: "simulate p g = (Inr S, g\<lparr>pos := pos g + nat (nt p) * nat (N p)\<rparr>)"
    "batch_ok p S" "S ! 0 = replicate (nat (N p)) (S0 p)"
    "\<forall>i j. 1 \<le> i \<and> i \<le> nat (nt p) \<and> j < nat (N p) \<longrightarrow>
              S ! i ! j = S ! (i - 1) ! j * growth p (draw_at p g i j)"
    using simulate_success [OF assms(1,2)] by blast
  show ?thesis
    using S col_length [OF S(2)] batch_ok_length [OF S(2)]
    by (intro exI [of _ S]) (simp add: growth_def draw_at_def)
qed

theorem simulate_paths_witness:
  "0 \<le> N demo_params \<and> 0 \<le> nt demo_params \<and> 0 \<le> dt demo_params \<and>
   (\<exists>S. simulate demo_params demo_rng = (Inr S, demo_rng\<lparr>pos := 4\<rparr>) \<and> length S = 3 \<and>
        (\<forall>i\<le>2. length (S ! i) = 2) \<and> (\<forall>j<2. S ! 0 ! j = 1) \<and>
        (\<forall>i j. 1 \<le> i \<and> i \<le> 2 \<and> j < 2 \<longrightarrow>
           S ! i ! j = S ! (i - 1) ! j * exp ((0 - 0.5 * 1\<^sup>2) * 1 + 1 * sqrt 1 * 0)))"
  using simulate_paths [of demo_params demo_rng]
  by (simp add: demo_params_def demo_rng_def)

subsection \<open>Claim C6\<close>

text \<open>C6. At the iteration with loop index \<open>t = nt - 1 - k\<close>, path \<open>j\<close> is among the
  regressed paths exactly when \<open>S[j, t] < K\<close>, so a path with \<open>S[j, t] = K\<close> is left out
  and keeps its exercise time; an in-the-money path gets its intrinsic value recomputed;
  the exercise time becomes \<open>t\<close> exactly when the path is in the money and its fitted
  continuation value is strictly below the recomputed intrinsic value, and is unchanged
  otherwise, in particular when the two are equal.\<close>

theorem strict_comparisons:
  assumes ok: "batch_ok p S" and k: "k < nat (nt p) - 1" and j: "j < nat (N p)"
  shows "(j \<in> set (itm_paths p (S ! (nat (nt p) - 1 - k))) \<longleftrightarrow> S ! (nat (nt p) - 1 - k) ! j < K p) \<and>
    (S ! (nat (nt p) - 1 - k) ! j = K p \<longrightarrow>
       j \<notin> set (itm_paths p (S ! (nat (nt p) - 1 - k))) \<and>
       exec_t (backward_upto lsq p S (Suc k)) ! j = exec_t (backward_upto lsq p S k) ! j) \<and>
    (S ! (nat (nt p) - 1 - k) ! j < K p \<longrightarrow>
       intrinsic (backward_upto lsq p S (Suc k)) ! j = max (K p - S ! (nat (nt p) - 1 - k) ! j) 0) \<and>
    (exec_t (backward_upto lsq p S (Suc k)) ! j = nat (nt p) - 1 - k \<longleftrightarrow>
       S ! (nat (nt p) - 1 - k) ! j < K p \<and>
       fitted lsq p (S ! (nat (nt p) - 1 - k)) (payoff (backward_upto lsq p S k)) j
         < intrinsic (backward_upto lsq p S (Suc k)) ! j) \<and>
    (exec_t (backward_upto lsq p S (Suc k)) ! j \<noteq> nat (nt p) - 1 - k \<longrightarrow>
       exec_t (backward_upto lsq p S (Suc k)) ! j = exec_t (backward_upto lsq p S k) ! j) \<and>
    (fitted lsq p (S ! (nat (nt p) - 1 - k)) (payoff (backward_upto lsq p S k)) j
         = intrinsic (backward_upto lsq p S (Suc k)) ! j \<longrightarrow>
       exec_t (backward_upto lsq p S (Suc k)) ! j = exec_t (backward_upto lsq p S k) ! j)"
proof -
  let ?t = "nat (nt p) - 1 - k"
  let ?s = "S ! ?t ! j"
  let ?e = "exec_t (backward_upto lsq p S k) ! j"
  let ?e' = "exec_t (backward_upto lsq p S (Suc k)) ! j"
  let ?i' = "intrinsic (backward_upto lsq p S (Suc k)) ! j"
  let ?i0 = "intrinsic (backward_upto lsq p S k) ! j"
  let ?f = "fitted lsq p (S ! ?t) (payoff (backward_upto lsq p S k)) j"
  note facts = loop_step_facts [OF ok k j, of lsq]
  have tn: "?t \<le> nat (nt p)" by simp
  have "set (itm_paths p (S ! ?t)) = {j. j < nat (N p) \<and> S ! ?t ! j < K p}"
    by (rule set_itm_paths_batch [OF ok tn])
  then have mem: "j \<in> set (itm_paths p (S ! ?t)) \<longleftrightarrow> ?s < K p"
    using j by blast
  have ne: "?e \<noteq> ?t" using facts(2) by (rule less_imp_neq [symmetric])
  have I: "?i' = (if ?s < K p then max (K p - ?s) 0 else ?i0)" by (rule facts(3))
  have E: "?e' = (if ?s < K p \<and> ?f < max (K p - ?s) 0 then ?t else ?e)" by (rule facts(4))
  have c1: "?s = K p \<longrightarrow> j \<notin> set (itm_paths p (S ! ?t)) \<and> ?e' = ?e"
    unfolding mem E by simp
  have c2: "?s < K p \<longrightarrow> ?i' = max (K p - ?s) 0"
    unfolding I by simp
  have c3: "?e' = ?t \<longleftrightarrow> ?s < K p \<and> ?f < ?i'"
    unfolding I E using ne by (cases "?s < K p") simp_all
  have c4: "?e' \<noteq> ?t \<longrightarrow> ?e' = ?e"
    unfolding E by simp
  have c5: "?f = ?i' \<longrightarrow> ?e' = ?e"
    using c3 c4 by (cases "?e' = ?t") simp_all
  show ?thesis
    by (intro conjI mem c1 c2 c3 c4 c5)
qed

theorem strict_comparisons_witness:
  "batch_ok demo_params atm_batch \<and> 0 < nat (nt demo_params) - 1 \<and>
   0 < nat (N demo_params) \<and> 1 < nat (N demo_params) \<and>
   atm_batch ! 1 ! 1 = K demo_params \<and>
   1 \<notin> set (itm_paths demo_params (atm_batch ! 1)) \<and>
   exec_t (backward_upto lstsq_intercept demo_params atm_batch 1) ! 1 =
     exec_t (backward_upto lstsq_intercept demo_params atm_batch 0) ! 1 \<and>
   atm_batch ! 1 ! 0 < K demo_params \<and>
   0 \<in> set (itm_paths demo_params (atm_batch ! 1)) \<and>
   intrinsic (backward_upto lstsq_intercept demo_params atm_batch 1) ! 0 = 1 / 2 \<and>
   fitted lstsq_intercept demo_params (atm_batch ! 1)
     (payoff (backward_upto lstsq_intercept demo_params atm_batch 0)) 0 = 1 / 2 \<and>
   exec_t (backward_upto lstsq_intercept demo_params atm_batch 1) ! 0 =
     exec_t (backward_upto lstsq_intercept demo_params atm_batch 0) ! 0"
proof -
  have h1: "batch_ok demo_params atm_batch"
    by (simp add: batch_ok_def demo_params_def atm_batch_def)
  have h2: "0 < nat (nt demo_params) - 1" by (simp add: demo_params_def)
  have h3: "0 < nat (N demo_params)" and h4: "1 < nat (N demo_params)"
    by (simp_all add: demo_params_def)
  have t: "nat (nt demo_params) - 1 - 0 = 1" by (simp add: demo_params_def)
  have atm: "atm_batch ! 1 ! 1 = K demo_params" and itm: "atm_batch ! 1 ! 0 < K demo_params"
    by (simp_all add: atm_batch_def demo_params_def)
  have m: "max (K demo_params - atm_batch ! 1 ! 0) 0 = 1 / 2"
    by (simp add: atm_batch_def demo_params_def)
  note a = strict_comparisons [OF h1 h2 h4, of lstsq_intercept, unfolded t One_nat_def [symmetric]]
  note b = strict_comparisons [OF h1 h2 h3, of lstsq_intercept, unfolded t One_nat_def [symmetric]]
  from a atm have a': "1 \<notin> set (itm_paths demo_params (atm_batch ! 1)) \<and>
      exec_t (backward_upto lstsq_intercept demo_params atm_batch 1) ! 1 =
      exec_t (backward_upto lstsq_intercept demo_params atm_batch 0) ! 1"
    by blast
  from b itm have b1: "0 \<in> set (itm_paths demo_params (atm_batch ! 1))"
    by blast
  from b itm have "intrinsic (backward_upto lstsq_intercept demo_params atm_batch 1) ! 0 =
      max (K demo_params - atm_batch ! 1 ! 0) 0"
    by blast
  then have b2: "intrinsic (backward_upto lstsq_intercept demo_params atm_batch 1) ! 0 = 1 / 2"
    by (simp only: m)
  have tie: "fitted lstsq_intercept demo_params (atm_batch ! 1)
      (payoff (backward_upto lstsq_intercept demo_params atm_batch 0)) 0 =
      intrinsic (backward_upto lstsq_intercept demo_params atm_batch 1) ! 0"
    by (simp only: atm_fitted b2)
  from b tie have b3:
    "exec_t (backward_upto lstsq_intercept demo_params atm_batch 1) ! 0 =
     exec_t (backward_upto lstsq_intercept demo_params atm_batch 0) ! 0"
    by blast
  from h1 h2 h3 h4 atm a' itm b1 b2 atm_fitted b3 show ?thesis by blast
qed

subsection \<open>Claim C7\<close>




subsection \<open>Claim C8\<close>

text \<open>C8. If no path is in the money at the iteration with loop index
  \<open>t = nt - 1 - k\<close>, the iteration leaves \<open>intrinsic\<close> and \<open>exec_t\<close> as they were, every
  path's payoff becomes its discounted carried-forward value \<open>dcf\<close>, column \<open>t\<close> of
  \<open>betas\<close> receives what the regression returns on the system without rows, and the
  loop goes on with the remaining indices from the resulting state.\<close>

theorem empty_itm_step:
  assumes ok: "batch_ok p S" and k: "k < nat (nt p) - 1"
    and itm: "itm_paths p (S ! (nat (nt p) - 1 - k)) = []"
  shows "intrinsic (backward_upto lsq p S (Suc k)) = intrinsic (backward_upto lsq p S k) \<and>
         exec_t (backward_upto lsq p S (Suc k)) = exec_t (backward_upto lsq p S k) \<and>
         payoff (backward_upto lsq p S (Suc k)) = discount p (payoff (backward_upto lsq p S k)) \<and>
         betas (backward_upto lsq p S (Suc k)) =
           (betas (backward_upto lsq p S k))[nat (nt p) - 1 - k := lsq [] []] \<and>
         backward lsq p S =
           fold (step lsq p S) (drop (Suc k) (range_down p)) (backward_upto lsq p S (Suc k))"
proof -
  let ?t = "nat (nt p) - 1 - k"
  let ?st = "backward_upto lsq p S k"
  have L: "length (intrinsic ?st) = nat (N p)" "length (payoff ?st) = nat (N p)"
    "length (exec_t ?st) = nat (N p)"
    using backward_upto_lengths [OF ok, of k lsq] k by simp_all
  have ne: "\<forall>j<length (payoff ?st). exec_t ?st ! j \<noteq> ?t"
  proof (intro allI impI)
    fix j assume "j < length (payoff ?st)"
    then have j: "j < nat (N p)" using L by simp
    show "exec_t ?st ! j \<noteq> ?t"
      using loop_step_facts(2) [OF ok k j, of lsq] by (rule less_imp_neq [symmetric])
  qed
  have s: "backward_upto lsq p S (Suc k) =
      \<lparr>intrinsic = intrinsic ?st, payoff = discount p (payoff ?st), exec_t = exec_t ?st,
       betas = (betas ?st)[?t := lsq [] []]\<rparr>"
    unfolding backward_upto_Suc [OF k]
    using L by (intro step_empty_itm [OF itm _ _ ne]) simp_all
  have "fold (step lsq p S) (take (Suc k) (range_down p) @ drop (Suc k) (range_down p)) (init_state p S) =
      fold (step lsq p S) (drop (Suc k) (range_down p)) (backward_upto lsq p S (Suc k))"
    unfolding fold_append backward_upto_def by simp
  then have cont: "backward lsq p S =
      fold (step lsq p S) (drop (Suc k) (range_down p)) (backward_upto lsq p S (Suc k))"
    by (simp add: backward_def)
  show ?thesis
    unfolding s using cont [unfolded s] by simp
qed

theorem empty_itm_step_witness:
  "batch_ok demo_params otm_batch \<and> 0 < nat (nt demo_params) - 1 \<and>
   itm_paths demo_params (otm_batch ! 1) = [] \<and>
   exec_t (backward_upto lstsq_intercept demo_params otm_batch 1) =
     exec_t (backward_upto lstsq_intercept demo_params otm_batch 0)"
proof -
  have h1: "batch_ok demo_params otm_batch"
    by (simp add: batch_ok_def demo_params_def otm_batch_def)
  have h2: "0 < nat (nt demo_params) - 1" by (simp add: demo_params_def)
  have "[0 ..< 2] = [0, Suc 0]" by (simp add: upt_rec)
  then have h3: "itm_paths demo_params (otm_batch ! (nat (nt demo_params) - 1 - 0)) = []"
    by (simp add: itm_paths_def demo_params_def otm_batch_def)
  show ?thesis
    using empty_itm_step [OF h1 h2 h3, of lstsq_intercept] h1 h2 h3
    by (simp add: demo_params_def)
qed

subsection \<open>Claim C9\<close>

text \<open>C9. At the iteration with loop index \<open>t = nt - 1 - k\<close> the exercise time of a path
  becomes \<open>t\<close> only if the path is in the money at \<open>t\<close>. A path that is not in the money
  keeps its exercise time, which differs from \<open>t\<close>, and its stored intrinsic value, and
  its payoff becomes its entry of \<open>dcf\<close>, not the stored intrinsic value.\<close>

theorem otm_keeps_and_discounts:
  assumes ok: "batch_ok p S" and k: "k < nat (nt p) - 1" and j: "j < nat (N p)"
  shows "(exec_t (backward_upto lsq p S (Suc k)) ! j = nat (nt p) - 1 - k \<longrightarrow>
            S ! (nat (nt p) - 1 - k) ! j < K p) \<and>
         (\<not> S ! (nat (nt p) - 1 - k) ! j < K p \<longrightarrow>
            exec_t (backward_upto lsq p S (Suc k)) ! j = exec_t (backward_upto lsq p S k) ! j \<and>
            exec_t (backward_upto lsq p S (Suc k)) ! j \<noteq> nat (nt p) - 1 - k \<and>
            intrinsic (backward_upto lsq p S (Suc k)) ! j = intrinsic (backward_upto lsq p S k) ! j \<and>
            payoff (backward_upto lsq p S (Suc k)) ! j = discount p (payoff (backward_upto lsq p S k)) ! j)"
proof -
  let ?t = "nat (nt p) - 1 - k"
  let ?s = "S ! ?t ! j"
  let ?st = "backward_upto lsq p S k"
  let ?st' = "backward_upto lsq p S (Suc k)"
  let ?f = "fitted lsq p (S ! ?t) (payoff ?st) j"
  note facts = loop_step_facts [OF ok k j, of lsq]
  have ne: "exec_t ?st ! j \<noteq> ?t" using facts(2) by (rule less_imp_neq [symmetric])
  have I: "intrinsic ?st' ! j = (if ?s < K p then max (K p - ?s) 0 else intrinsic ?st ! j)"
    by (rule facts(3))
  have E: "exec_t ?st' ! j = (if ?s < K p \<and> ?f < max (K p - ?s) 0 then ?t else exec_t ?st ! j)"
    by (rule facts(4))
  have P: "payoff ?st' ! j =
      (if exec_t ?st' ! j = ?t then intrinsic ?st' ! j else exp (- r p * dt p) * payoff ?st ! j)"
    by (rule facts(5))
  have "length (payoff ?st) = nat (N p)"
    using backward_upto_lengths [OF ok, of k lsq] k by simp
  then have D: "discount p (payoff ?st) ! j = exp (- r p * dt p) * payoff ?st ! j"
    using j by (simp add: discount_def)
  have c1: "exec_t ?st' ! j = ?t \<longrightarrow> ?s < K p"
    unfolding E using ne by (cases "?s < K p") simp_all
  have c2: "\<not> ?s < K p \<longrightarrow> exec_t ?st' ! j = exec_t ?st ! j"
    unfolding E by simp
  have c3: "\<not> ?s < K p \<longrightarrow> exec_t ?st' ! j \<noteq> ?t"
    using c1 by blast
  have c4: "\<not> ?s < K p \<longrightarrow> intrinsic ?st' ! j = intrinsic ?st ! j"
    unfolding I by simp
  have c5: "\<not> ?s < K p \<longrightarrow> payoff ?st' ! j = discount p (payoff ?st) ! j"
    unfolding P D using c3 by simp
  from c2 c3 c4 c5 have c6: "\<not> ?s < K p \<longrightarrow>
            exec_t ?st' ! j = exec_t ?st ! j \<and> exec_t ?st' ! j \<noteq> ?t \<and>
            intrinsic ?st' ! j = intrinsic ?st ! j \<and>
            payoff ?st' ! j = discount p (payoff ?st) ! j"
    by blast
  show ?thesis
    by (intro conjI c1 c6)
qed

theorem otm_keeps_and_discounts_witness:
  "batch_ok demo_params exercise_batch \<and> 0 < nat (nt demo_params) - 1 \<and>
   0 < nat (N demo_params) \<and> 1 < nat (N demo_params) \<and>
   exec_t (backward_upto lstsq_intercept demo_params exercise_batch 1) ! 0 = 1 \<and>
   exercise_batch ! 1 ! 0 < K demo_params \<and>
   \<not> exercise_batch ! 1 ! 1 < K demo_params \<and>
   exec_t (backward_upto lstsq_intercept demo_params exercise_batch 1) ! 1 \<noteq> 1 \<and>
   payoff (backward_upto lstsq_intercept demo_params exercise_batch 1) ! 1 =
     discount demo_params (payoff (backward_upto lstsq_intercept demo_params exercise_batch 0)) ! 1"
proof -
  have h1: "batch_ok demo_params exercise_batch"
    by (simp add: batch_ok_def demo_params_def exercise_batch_def)
  have h2: "0 < nat (nt demo_params) - 1" by (simp add: demo_params_def)
  have h3: "0 < nat (N demo_params)" and h4: "1 < nat (N demo_params)"
    by (simp_all add: demo_params_def)
  have t: "nat (nt demo_params) - 1 - 0 = 1" by (simp add: demo_params_def)
  have ex: "exec_t (backward_upto lstsq_intercept demo_params exercise_batch 1) ! 0 = 1"
    unfolding exercise_upto_1 by simp
  have otm: "\<not> exercise_batch ! 1 ! 1 < K demo_params"
    by (simp add: exercise_batch_def demo_params_def)
  note a = otm_keeps_and_discounts [OF h1 h2 h3, of lstsq_intercept, unfolded t One_nat_def [symmetric]]
  note b = otm_keeps_and_discounts [OF h1 h2 h4, of lstsq_intercept, unfolded t One_nat_def [symmetric]]
  from a ex have a': "exercise_batch ! 1 ! 0 < K demo_params" by blast
  from b otm have b': "exec_t (backward_upto lstsq_intercept demo_params exercise_batch 1) ! 1 \<noteq> 1 \<and>
   payoff (backward_upto lstsq_intercept demo_params exercise_batch 1) ! 1 =
     discount demo_params (payoff (backward_upto lstsq_intercept demo_params exercise_batch 0)) ! 1"
    by blast
  from h1 h2 h3 h4 ex a' otm b' show ?thesis by blast
qed

subsection \<open>Claim C10\<close>

text \<open>C10. For \<open>N \<ge> 1\<close>, \<open>nt \<ge> 0\<close>, \<open>R \<ge> 1\<close> and \<open>dt \<ge> 0\<close>, in a repetition started in any generator
  state: every path's payoff is non-negative after any number of iterations of the
  backward loop on the simulated table, the repetition's price estimate is non-negative,
  and so is the mean the run reports.\<close>

theorem payoff_price_mean_nonneg:
  assumes n1: "1 \<le> N p" and t0: "0 \<le> nt p" and r1: "1 \<le> R p" and d0: "0 \<le> dt p"
  shows "\<exists>S. simulate p g = (Inr S, rep_rng p g 1) \<and>
           (\<forall>k j. j < nat (N p) \<longrightarrow> 0 \<le> payoff (backward_upto lsq p S k) ! j) \<and>
           repetition lsq p g = (Inr (solve lsq p S), rep_rng p g 1) \<and>
           0 \<le> solve lsq p S \<and>
           (\<exists>m s. run lsq p g = (Inr (m, s), rep_rng p g (nat (R p))) \<and> 0 \<le> m)"
proof -
  have n0: "0 \<le> N p" using n1 by simp
  have r0: "0 \<le> R p" using r1 by simp
  obtain S where S: "batch_ok p S" "simulate p g = (Inr S, rep_rng p g 1)"
    "repetition lsq p g = (Inr (solve lsq p S), rep_rng p g 1)"
    using repetition_success [OF n0 t0, of g lsq] by blast
  have pay: "\<forall>k j. j < nat (N p) \<longrightarrow> 0 \<le> payoff (backward_upto lsq p S k) ! j"
    using payoff_nonneg [OF S(1)] by blast
  let ?pe = "map (\<lambda>i. price_of lsq p (rep_rng p g i)) [0 ..< nat (R p)]"
  have run: "run lsq p g = (Inr (np_mean ?pe, np_std ?pe), rep_rng p g (nat (R p)))"
    by (rule run_success [OF r0]) (simp add: n0 t0)
  have "\<forall>x\<in>set ?pe. 0 \<le> x"
    using price_of_nonneg [OF n0 t0] by auto
  then have mean: "0 \<le> np_mean ?pe" by (rule np_mean_nonneg)
  show ?thesis
    using S(2,3) pay solve_nonneg [OF S(1), of lsq] run mean by blast
qed

theorem payoff_price_mean_nonneg_witness:
  "1 \<le> N demo_params \<and> 0 \<le> nt demo_params \<and> 1 \<le> R demo_params \<and> 0 \<le> dt demo_params \<and>
   (\<exists>m s. run lstsq_intercept demo_params demo_rng =
            (Inr (m, s), rep_rng demo_params demo_rng (nat (R demo_params))) \<and> 0 \<le> m)"
proof -
  have h1: "1 \<le> N demo_params" by (simp add: demo_params_def)
  have h2: "0 \<le> nt demo_params" by (simp add: demo_params_def)
  have h3: "1 \<le> R demo_params" by (simp add: demo_params_def)
  have h4: "0 \<le> dt demo_params" by (simp add: demo_params_def)
  from payoff_price_mean_nonneg [OF h1 h2 h3 h4, of demo_rng lstsq_intercept]
  have "\<exists>m s. run lstsq_intercept demo_params demo_rng =
            (Inr (m, s), rep_rng demo_params demo_rng (nat (R demo_params))) \<and> 0 \<le> m"
    by blast
  with h1 h2 h3 h4 show ?thesis by blast
qed

end
